theory Spec2Isabelle
  imports Complex_Main "HOL-Library.Word"
begin

unbundle bit_operations_syntax

section \<open>Python values, exceptions and loops\<close>

text \<open>
  The structures of week 17 (\<open>bloom_filter.py\<close>, \<open>count_min_sketch.py\<close>, \<open>hyperloglog.py\<close>)
  are Python classes. Python integers are unbounded (\<open>int\<close>), \<open>//\<close> and \<open>%\<close> round towards
  minus infinity as \<open>div\<close> and \<open>mod\<close> on \<open>int\<close> do, and every exception the code can raise,
  explicitly or through a builtin, is a value on the left of a sum.
\<close>

datatype error =
    ValueError string
  | ZeroDivisionError
  | IndexError
  | OverflowError
  | MemoryError

definition bindE :: "error + 'a \<Rightarrow> ('a \<Rightarrow> error + 'b) \<Rightarrow> error + 'b" where
  "bindE m f = (case m of Inl e \<Rightarrow> Inl e | Inr x \<Rightarrow> f x)"

text \<open>\<open>a % b\<close> raises on a zero divisor.\<close>

definition py_mod :: "int \<Rightarrow> int \<Rightarrow> error + int" where
  "py_mod a b = (if b = 0 then Inl ZeroDivisionError else Inr (a mod b))"

text \<open>\<open>xs[i]\<close>: a negative index counts from the end, anything out of range raises.\<close>

definition py_index :: "'a list \<Rightarrow> int \<Rightarrow> error + nat" where
  "py_index xs i =
     (if 0 \<le> i \<and> i < int (length xs) then Inr (nat i)
      else if i < 0 \<and> - int (length xs) \<le> i then Inr (nat (int (length xs) + i))
      else Inl IndexError)"

definition py_get :: "'a list \<Rightarrow> int \<Rightarrow> error + 'a" where
  "py_get xs i = bindE (py_index xs i) (\<lambda>j. Inr (xs ! j))"

definition py_set :: "'a list \<Rightarrow> int \<Rightarrow> 'a \<Rightarrow> error + 'a list" where
  "py_set xs i v = bindE (py_index xs i) (\<lambda>j. Inr (xs[j := v]))"

text \<open>\<open>range(n)\<close> is empty for \<open>n \<le> 0\<close>.\<close>

definition py_range :: "int \<Rightarrow> int list" where
  "py_range n = map int [0..<nat n]"

text \<open>\<open>for x in xs: body\<close>, where the body updates the state or raises.\<close>

fun for_each :: "('a \<Rightarrow> 's \<Rightarrow> error + 's) \<Rightarrow> 'a list \<Rightarrow> 's \<Rightarrow> error + 's" where
  "for_each body [] s = Inr s"
| "for_each body (x # xs) s =
     (case body x s of Inl e \<Rightarrow> Inl e | Inr s' \<Rightarrow> for_each body xs s')"

section \<open>Bloom filter (\<open>bloom_filter.py\<close>, class \<open>BloomFilter\<close>)\<close>

text \<open>
  The two digests of \<open>_hash\<close> are parameters of the model: \<open>md5\<close> gives 128 bits and
  \<open>sha1\<close> 160 bits, read as unsigned integers (\<open>int(hexdigest, 16)\<close>). An item is the
  byte string that \<open>item.encode('utf-8')\<close> hands to them.
\<close>

type_synonym md5_fn = "string \<Rightarrow> 128 word"
type_synonym sha1_fn = "string \<Rightarrow> 160 word"

record BloomFilter =
  num_bits :: int
  num_hashes :: int
  num_items :: int
  bits :: "8 word list"

text \<open>
  \<open>bytearray(n)\<close> asks the interpreter for \<open>n\<close> zero bytes. The count has to fit the index
  type of the interpreter, \<open>-sys.maxsize - 1 .. sys.maxsize\<close> (\<open>OverflowError\<close> outside), a
  negative count is a \<open>ValueError\<close>, and the allocator may refuse the request
  (\<open>MemoryError\<close>). The two limits are parameters of the model: \<open>maxsize\<close> stands for
  \<open>sys.maxsize\<close> and \<open>available\<close> for the largest count the allocator grants.
\<close>

record interpreter =
  maxsize :: int
  available :: int

definition bytearray :: "interpreter \<Rightarrow> int \<Rightarrow> error + 8 word list" where
  "bytearray py n =
     (if n < - maxsize py - 1 \<or> maxsize py < n then Inl OverflowError
      else if n < 0 then Inl (ValueError ''negative count'')
      else if available py < n then Inl MemoryError
      else Inr (replicate (nat n) 0))"

text \<open>A 64-bit interpreter that grants up to one GiB, where a statement is evaluated.\<close>

definition sample_interpreter :: interpreter where
  "sample_interpreter = \<lparr>maxsize = 2 ^ 63 - 1, available = 2 ^ 30\<rparr>"

definition BloomFilter_init :: "interpreter \<Rightarrow> int \<Rightarrow> int \<Rightarrow> error + BloomFilter" where
  "BloomFilter_init py nb nh =
     bindE (bytearray py ((nb + 7) div 8))
       (\<lambda>bs. Inr \<lparr>num_bits = nb, num_hashes = nh, num_items = 0, bits = bs\<rparr>)"

definition BloomFilter_hash ::
  "md5_fn \<Rightarrow> sha1_fn \<Rightarrow> BloomFilter \<Rightarrow> string \<Rightarrow> int \<Rightarrow> error + int" where
  "BloomFilter_hash md5 sha1 self item seed =
     (let h1 = uint (md5 item); h2 = uint (sha1 item)
      in py_mod (h1 + seed * h2) (BloomFilter.num_bits self))"

text \<open>
  \<open>self.bits[byte_index] |= (1 << bit_index)\<close>: \<open>bit_index = index % 8\<close> is in \<open>0..7\<close>, so
  the mask and the new byte fit the eight bits of a bytearray cell.
\<close>

definition BloomFilter_set_bit :: "BloomFilter \<Rightarrow> int \<Rightarrow> error + BloomFilter" where
  "BloomFilter_set_bit self index =
     (let byte_index = index div 8; bit_index = index mod 8
      in bindE (py_get (bits self) byte_index) (\<lambda>b.
         bindE (py_set (bits self) byte_index (b OR push_bit (nat bit_index) 1)) (\<lambda>bs.
         Inr (self\<lparr>bits := bs\<rparr>))))"

definition BloomFilter_get_bit :: "BloomFilter \<Rightarrow> int \<Rightarrow> error + bool" where
  "BloomFilter_get_bit self index =
     (let byte_index = index div 8; bit_index = index mod 8
      in bindE (py_get (bits self) byte_index) (\<lambda>b.
         Inr (b AND push_bit (nat bit_index) 1 \<noteq> 0)))"

definition BloomFilter_add ::
  "md5_fn \<Rightarrow> sha1_fn \<Rightarrow> BloomFilter \<Rightarrow> string \<Rightarrow> error + BloomFilter" where
  "BloomFilter_add md5 sha1 self item =
     bindE (for_each (\<lambda>i s. bindE (BloomFilter_hash md5 sha1 s item i) (BloomFilter_set_bit s))
              (py_range (BloomFilter.num_hashes self)) self)
       (\<lambda>s. Inr (s\<lparr>BloomFilter.num_items := BloomFilter.num_items s + 1\<rparr>))"

text \<open>The loop of \<open>query\<close> returns \<open>False\<close> at the first bit that is not set.\<close>

fun BloomFilter_query_loop ::
  "md5_fn \<Rightarrow> sha1_fn \<Rightarrow> BloomFilter \<Rightarrow> string \<Rightarrow> int list \<Rightarrow> error + bool" where
  "BloomFilter_query_loop md5 sha1 self item [] = Inr True"
| "BloomFilter_query_loop md5 sha1 self item (i # rest) =
     (case BloomFilter_hash md5 sha1 self item i of
        Inl e \<Rightarrow> Inl e
      | Inr bit_index \<Rightarrow>
          (case BloomFilter_get_bit self bit_index of
             Inl e \<Rightarrow> Inl e
           | Inr b \<Rightarrow> if \<not> b then Inr False
                      else BloomFilter_query_loop md5 sha1 self item rest))"

definition BloomFilter_query ::
  "md5_fn \<Rightarrow> sha1_fn \<Rightarrow> BloomFilter \<Rightarrow> string \<Rightarrow> error + bool" where
  "BloomFilter_query md5 sha1 self item =
     BloomFilter_query_loop md5 sha1 self item (py_range (BloomFilter.num_hashes self))"

text \<open>A caller that adds the items of a list one after the other.\<close>

definition BloomFilter_add_all ::
  "md5_fn \<Rightarrow> sha1_fn \<Rightarrow> string list \<Rightarrow> BloomFilter \<Rightarrow> error + BloomFilter" where
  "BloomFilter_add_all md5 sha1 items self =
     for_each (\<lambda>item s. BloomFilter_add md5 sha1 s item) items self"

text \<open>Stand-ins for the two digests, where a statement is evaluated on a concrete input.\<close>

definition sample_md5 :: md5_fn where
  "sample_md5 item = of_nat (length item)"

definition sample_sha1 :: sha1_fn where
  "sample_sha1 item = of_nat (Suc (length item))"

text \<open>
  What the proofs say about a filter: its shape as \<open>__init__\<close> builds it for a positive
  \<open>num_bits\<close>, the index \<open>_hash\<close> computes, the bit at an index, and a filter that has
  every bit of an earlier one.
\<close>

definition BloomFilter_wf :: "BloomFilter \<Rightarrow> bool" where
  "BloomFilter_wf s \<longleftrightarrow>
     0 < BloomFilter.num_bits s \<and> length (bits s) = nat ((BloomFilter.num_bits s + 7) div 8)"

definition bloom_index :: "md5_fn \<Rightarrow> sha1_fn \<Rightarrow> int \<Rightarrow> string \<Rightarrow> int \<Rightarrow> int" where
  "bloom_index md5 sha1 m item i = (uint (md5 item) + i * uint (sha1 item)) mod m"

definition bit_at :: "BloomFilter \<Rightarrow> int \<Rightarrow> bool" where
  "bit_at s idx = bit (bits s ! nat (idx div 8)) (nat (idx mod 8))"

definition bloom_extends :: "BloomFilter \<Rightarrow> BloomFilter \<Rightarrow> bool" where
  "bloom_extends s s' \<longleftrightarrow>
     BloomFilter_wf s' \<and> BloomFilter.num_bits s' = BloomFilter.num_bits s \<and>
     BloomFilter.num_hashes s' = BloomFilter.num_hashes s \<and>
     (\<forall>j. 0 \<le> j \<and> j < BloomFilter.num_bits s \<and> bit_at s j \<longrightarrow> bit_at s' j)"

definition bloom_holds :: "md5_fn \<Rightarrow> sha1_fn \<Rightarrow> BloomFilter \<Rightarrow> string \<Rightarrow> bool" where
  "bloom_holds md5 sha1 s item \<longleftrightarrow>
     (\<forall>i \<in> set (py_range (BloomFilter.num_hashes s)).
        bit_at s (bloom_index md5 sha1 (BloomFilter.num_bits s) item i))"

text \<open>
  What \<open>__init__\<close> stores when the allocation of the byte array succeeds.
\<close>

definition fresh_BloomFilter :: "int \<Rightarrow> int \<Rightarrow> BloomFilter" where
  "fresh_BloomFilter nb nh =
     \<lparr>num_bits = nb, num_hashes = nh, num_items = 0, bits = replicate (nat ((nb + 7) div 8)) 0\<rparr>"

section \<open>Counting Bloom filter (\<open>bloom_filter.py\<close>, class \<open>CountingBloomFilter\<close>)\<close>

text \<open>\<open>a << b\<close> raises on a negative shift count.\<close>

definition py_lshift :: "int \<Rightarrow> int \<Rightarrow> error + int" where
  "py_lshift a b =
     (if b < 0 then Inl (ValueError ''negative shift count'') else Inr (push_bit (nat b) a))"

text \<open>\<open>[f(x) for x in xs]\<close>, where \<open>f\<close> may raise.\<close>

fun list_comprehension :: "('a \<Rightarrow> error + 'b) \<Rightarrow> 'a list \<Rightarrow> error + 'b list" where
  "list_comprehension f [] = Inr []"
| "list_comprehension f (x # xs) =
     (case f x of
        Inl e \<Rightarrow> Inl e
      | Inr y \<Rightarrow> (case list_comprehension f xs of Inl e \<Rightarrow> Inl e | Inr ys \<Rightarrow> Inr (y # ys)))"

record CountingBloomFilter =
  num_counters :: int
  num_hashes :: int
  counter_bits :: int
  max_count :: int
  num_items :: int
  counters :: "int list"

text \<open>\<open>[0] * n\<close> is the empty list for \<open>n \<le> 0\<close>.\<close>

definition CountingBloomFilter_init :: "int \<Rightarrow> int \<Rightarrow> int \<Rightarrow> error + CountingBloomFilter" where
  "CountingBloomFilter_init nc nh cb =
     bindE (py_lshift 1 cb) (\<lambda>shifted.
       Inr \<lparr>num_counters = nc, num_hashes = nh, counter_bits = cb, max_count = shifted - 1,
            num_items = 0, counters = replicate (nat nc) 0\<rparr>)"

definition CountingBloomFilter_hash ::
  "md5_fn \<Rightarrow> sha1_fn \<Rightarrow> CountingBloomFilter \<Rightarrow> string \<Rightarrow> int \<Rightarrow> error + int" where
  "CountingBloomFilter_hash md5 sha1 self item seed =
     (let h1 = uint (md5 item); h2 = uint (sha1 item)
      in py_mod (h1 + seed * h2) (num_counters self))"

text \<open>The first loop of \<open>add\<close>: it leaves with \<open>False\<close> at the first saturated counter.\<close>

fun would_overflow :: "CountingBloomFilter \<Rightarrow> int list \<Rightarrow> error + bool" where
  "would_overflow self [] = Inr False"
| "would_overflow self (idx # rest) =
     (case py_get (counters self) idx of
        Inl e \<Rightarrow> Inl e
      | Inr c \<Rightarrow> if c \<ge> max_count self then Inr True else would_overflow self rest)"

text \<open>\<open>self.counters[idx] += 1\<close>\<close>

definition increment_counter :: "int \<Rightarrow> CountingBloomFilter \<Rightarrow> error + CountingBloomFilter" where
  "increment_counter idx self =
     bindE (py_get (counters self) idx) (\<lambda>c.
     bindE (py_set (counters self) idx (c + 1)) (\<lambda>cs.
     Inr (self\<lparr>counters := cs\<rparr>)))"

text \<open>\<open>add\<close> returns its boolean and the filter as the call leaves it.\<close>

definition CountingBloomFilter_add ::
  "md5_fn \<Rightarrow> sha1_fn \<Rightarrow> CountingBloomFilter \<Rightarrow> string \<Rightarrow> error + bool \<times> CountingBloomFilter" where
  "CountingBloomFilter_add md5 sha1 self item =
     bindE (list_comprehension (CountingBloomFilter_hash md5 sha1 self item)
              (py_range (CountingBloomFilter.num_hashes self))) (\<lambda>indices.
     bindE (would_overflow self indices) (\<lambda>overflow.
       if overflow then Inr (False, self)
       else bindE (for_each increment_counter indices self) (\<lambda>s.
         Inr (True, s\<lparr>CountingBloomFilter.num_items := CountingBloomFilter.num_items s + 1\<rparr>))))"

fun CountingBloomFilter_query_loop ::
  "md5_fn \<Rightarrow> sha1_fn \<Rightarrow> CountingBloomFilter \<Rightarrow> string \<Rightarrow> int list \<Rightarrow> error + bool" where
  "CountingBloomFilter_query_loop md5 sha1 self item [] = Inr True"
| "CountingBloomFilter_query_loop md5 sha1 self item (i # rest) =
     (case CountingBloomFilter_hash md5 sha1 self item i of
        Inl e \<Rightarrow> Inl e
      | Inr idx \<Rightarrow>
          (case py_get (counters self) idx of
             Inl e \<Rightarrow> Inl e
           | Inr c \<Rightarrow> if c = 0 then Inr False
                      else CountingBloomFilter_query_loop md5 sha1 self item rest))"

definition CountingBloomFilter_query ::
  "md5_fn \<Rightarrow> sha1_fn \<Rightarrow> CountingBloomFilter \<Rightarrow> string \<Rightarrow> error + bool" where
  "CountingBloomFilter_query md5 sha1 self item =
     CountingBloomFilter_query_loop md5 sha1 self item
       (py_range (CountingBloomFilter.num_hashes self))"

text \<open>The loop body of \<open>remove\<close>: a counter is decremented only when it is positive.\<close>

definition decrement_counter ::
  "md5_fn \<Rightarrow> sha1_fn \<Rightarrow> string \<Rightarrow> int \<Rightarrow> CountingBloomFilter \<Rightarrow> error + CountingBloomFilter" where
  "decrement_counter md5 sha1 item i self =
     bindE (CountingBloomFilter_hash md5 sha1 self item i) (\<lambda>idx.
     bindE (py_get (counters self) idx) (\<lambda>c.
       if c > 0 then bindE (py_set (counters self) idx (c - 1)) (\<lambda>cs. Inr (self\<lparr>counters := cs\<rparr>))
       else Inr self))"

definition CountingBloomFilter_remove ::
  "md5_fn \<Rightarrow> sha1_fn \<Rightarrow> CountingBloomFilter \<Rightarrow> string \<Rightarrow> error + bool \<times> CountingBloomFilter" where
  "CountingBloomFilter_remove md5 sha1 self item =
     bindE (CountingBloomFilter_query md5 sha1 self item) (\<lambda>present.
       if \<not> present then Inr (False, self)
       else bindE (for_each (decrement_counter md5 sha1 item)
                     (py_range (CountingBloomFilter.num_hashes self)) self) (\<lambda>s.
         Inr (True, s\<lparr>CountingBloomFilter.num_items := CountingBloomFilter.num_items s - 1\<rparr>)))"

text \<open>
  What the proofs say about a counting filter: its shape as \<open>__init__\<close> builds it for a
  positive \<open>num_counters\<close>, and the list of target indices that \<open>add\<close> computes.
\<close>

definition CountingBloomFilter_wf :: "CountingBloomFilter \<Rightarrow> bool" where
  "CountingBloomFilter_wf s \<longleftrightarrow>
     0 < num_counters s \<and> length (counters s) = nat (num_counters s)"

definition target_indices ::
  "md5_fn \<Rightarrow> sha1_fn \<Rightarrow> CountingBloomFilter \<Rightarrow> string \<Rightarrow> int list" where
  "target_indices md5 sha1 s item =
     map (bloom_index md5 sha1 (num_counters s) item)
       (py_range (CountingBloomFilter.num_hashes s))"

text \<open>Every counter raised by the number of times its index occurs in a list.\<close>

definition incremented :: "int list \<Rightarrow> int list \<Rightarrow> int list" where
  "incremented idxs cs = map (\<lambda>j. cs ! j + int (count_list idxs (int j))) [0..<length cs]"

text \<open>A filter whose counters are those of an earlier one, none raised and none taken below 0.\<close>

definition counters_lowered :: "CountingBloomFilter \<Rightarrow> CountingBloomFilter \<Rightarrow> bool" where
  "counters_lowered s t \<longleftrightarrow>
     CountingBloomFilter_wf t \<and> num_counters t = num_counters s \<and>
     CountingBloomFilter.num_hashes t = CountingBloomFilter.num_hashes s \<and>
     max_count t = max_count s \<and> length (counters t) = length (counters s) \<and>
     (\<forall>j < length (counters s).
        counters t ! j \<le> counters s ! j \<and> (0 \<le> counters s ! j \<longrightarrow> 0 \<le> counters t ! j))"

section \<open>Count-Min Sketch (\<open>count_min_sketch.py\<close>, class \<open>CountMinSketch\<close>)\<close>

text \<open>
  \<open>_hash\<close> reads the first eight bytes of a SHA-256 digest as a big-endian integer; the
  function from the salted byte string to these 64 bits is a parameter of the model.
\<close>

type_synonym sha256_fn = "string \<Rightarrow> 64 word"

text \<open>\<open>str(n)\<close>, as the f-string \<open>f"{row}:{item}"\<close> renders the row.\<close>

fun decimal :: "nat \<Rightarrow> string" where
  "decimal n =
     (if n < 10 then [char_of (48 + n)] else decimal (n div 10) @ [char_of (48 + n mod 10)])"

declare decimal.simps [simp del]

definition py_str :: "int \<Rightarrow> string" where
  "py_str i = (if i < 0 then CHR ''-'' # decimal (nat (- i)) else decimal (nat i))"

record CountMinSketch =
  width :: int
  depth :: int
  table :: "int list list"
  total_count :: int

text \<open>
  \<open>[[0] * width for _ in range(depth)]\<close> builds \<open>depth\<close> rows that are separate lists, so
  a write to one row is not seen through another: the table is a list of lists by value.
\<close>

definition CountMinSketch_init :: "int \<Rightarrow> int \<Rightarrow> CountMinSketch" where
  "CountMinSketch_init w d =
     \<lparr>width = w, depth = d, table = replicate (nat d) (replicate (nat w) 0), total_count = 0\<rparr>"

definition CountMinSketch_hash ::
  "sha256_fn \<Rightarrow> CountMinSketch \<Rightarrow> string \<Rightarrow> int \<Rightarrow> error + int" where
  "CountMinSketch_hash sha256 self item row =
     (let salted = py_str row @ '':'' @ item;
          hash_int = uint (sha256 salted)
      in py_mod hash_int (width self))"

text \<open>\<open>table[row][col]\<close> and \<open>table[row][col] = v\<close>\<close>

definition cell_get :: "int list list \<Rightarrow> int \<Rightarrow> int \<Rightarrow> error + int" where
  "cell_get t row col = bindE (py_get t row) (\<lambda>r. py_get r col)"

definition cell_set :: "int list list \<Rightarrow> int \<Rightarrow> int \<Rightarrow> int \<Rightarrow> error + int list list" where
  "cell_set t row col v =
     bindE (py_get t row) (\<lambda>r. bindE (py_set r col v) (\<lambda>r'. py_set t row r'))"

text \<open>The loop body of \<open>update\<close>: \<open>self.table[row][col] += count\<close>.\<close>

definition update_row ::
  "sha256_fn \<Rightarrow> string \<Rightarrow> int \<Rightarrow> int \<Rightarrow> CountMinSketch \<Rightarrow> error + CountMinSketch" where
  "update_row sha256 item count row self =
     bindE (CountMinSketch_hash sha256 self item row) (\<lambda>col.
     bindE (cell_get (table self) row col) (\<lambda>c.
     bindE (cell_set (table self) row col (c + count)) (\<lambda>t.
     Inr (self\<lparr>table := t\<rparr>))))"

definition CountMinSketch_update ::
  "sha256_fn \<Rightarrow> CountMinSketch \<Rightarrow> string \<Rightarrow> int \<Rightarrow> error + CountMinSketch" where
  "CountMinSketch_update sha256 self item count =
     bindE (for_each (update_row sha256 item count) (py_range (depth self)) self)
       (\<lambda>s. Inr (s\<lparr>total_count := total_count s + count\<rparr>))"

text \<open>
  The loop of \<open>query\<close> starts from \<open>float('inf')\<close>, written \<open>None\<close>, and takes the minimum
  with a cell in every row; \<open>int(float('inf'))\<close>, when no row was read, raises
  \<open>OverflowError\<close>.
\<close>

definition query_row ::
  "sha256_fn \<Rightarrow> CountMinSketch \<Rightarrow> string \<Rightarrow> int \<Rightarrow> int option \<Rightarrow> error + int option" where
  "query_row sha256 self item row min_count =
     bindE (CountMinSketch_hash sha256 self item row) (\<lambda>col.
     bindE (cell_get (table self) row col) (\<lambda>c.
     Inr (Some (case min_count of None \<Rightarrow> c | Some m \<Rightarrow> min m c))))"

definition CountMinSketch_query ::
  "sha256_fn \<Rightarrow> CountMinSketch \<Rightarrow> string \<Rightarrow> error + int" where
  "CountMinSketch_query sha256 self item =
     bindE (for_each (query_row sha256 self item) (py_range (depth self)) None)
       (\<lambda>min_count. case min_count of None \<Rightarrow> Inl OverflowError | Some m \<Rightarrow> Inr m)"

text \<open>A stream of \<open>update(item, count)\<close> calls, and the true frequency of an item in it.\<close>

definition CountMinSketch_update_all ::
  "sha256_fn \<Rightarrow> (string \<times> int) list \<Rightarrow> CountMinSketch \<Rightarrow> error + CountMinSketch" where
  "CountMinSketch_update_all sha256 stream self =
     for_each (\<lambda>u s. CountMinSketch_update sha256 s (fst u) (snd u)) stream self"

definition true_frequency :: "string \<Rightarrow> (string \<times> int) list \<Rightarrow> int" where
  "true_frequency x stream = sum_list (map snd (filter (\<lambda>u. fst u = x) stream))"

definition sample_sha256 :: sha256_fn where
  "sample_sha256 salted = of_nat (sum_list (map of_char salted))"

text \<open>
  What the proofs say about a sketch: its shape as \<open>__init__\<close> builds it for a positive
  width, and the column of an item in a row.
\<close>

definition CountMinSketch_wf :: "CountMinSketch \<Rightarrow> bool" where
  "CountMinSketch_wf s \<longleftrightarrow>
     0 < width s \<and> length (table s) = nat (depth s) \<and>
     (\<forall>r \<in> set (table s). length r = nat (width s))"

definition column :: "sha256_fn \<Rightarrow> int \<Rightarrow> string \<Rightarrow> nat \<Rightarrow> nat" where
  "column sha256 w item row = nat (uint (sha256 (py_str (int row) @ '':'' @ item)) mod w)"

text \<open>
  The effect of the loop of \<open>update\<close> on a cell, for the rows it has visited: the cell of
  the item's column grows by \<open>count\<close>, every other cell is kept.
\<close>

definition updated_upto ::
  "sha256_fn \<Rightarrow> string \<Rightarrow> int \<Rightarrow> nat \<Rightarrow> CountMinSketch \<Rightarrow> CountMinSketch \<Rightarrow> bool" where
  "updated_upto sha256 item count k s s' \<longleftrightarrow>
     CountMinSketch_wf s' \<and> width s' = width s \<and> depth s' = depth s \<and>
     total_count s' = total_count s \<and>
     (\<forall>row < nat (depth s). \<forall>col < nat (width s).
        table s' ! row ! col =
          table s ! row ! col +
            (if row < k \<and> col = column sha256 (width s) item row then count else 0))"

section \<open>HyperLogLog (\<open>hyperloglog.py\<close>, class \<open>HyperLogLog\<close>)\<close>

text \<open>
  The attribute \<open>alpha\<close>, a float that only \<open>count\<close> reads, is left out of the record;
  \<open>add\<close> and \<open>merge\<close> neither read nor write it, and it is a function of the precision.
  \<open>_hash\<close> is the first eight bytes of the SHA-256 digest of the item, a parameter of the
  model as for the Count-Min Sketch.
\<close>

text \<open>\<open>a >> b\<close> raises on a negative shift count.\<close>

definition py_rshift :: "int \<Rightarrow> int \<Rightarrow> error + int" where
  "py_rshift a b =
     (if b < 0 then Inl (ValueError ''negative shift count'') else Inr (drop_bit (nat b) a))"

text \<open>\<open>range(n, -1, -1)\<close>: from \<open>n\<close> down to 0.\<close>

definition py_range_down :: "int \<Rightarrow> int list" where
  "py_range_down n = map int (rev [0..<nat (n + 1)])"

record HyperLogLog =
  precision :: int
  num_registers :: int
  registers :: "int list"

definition HyperLogLog_init :: "int \<Rightarrow> error + HyperLogLog" where
  "HyperLogLog_init p =
     (if \<not> (4 \<le> p \<and> p \<le> 18) then Inl (ValueError ''Precision must be between 4 and 18'')
      else bindE (py_lshift 1 p) (\<lambda>m.
        Inr \<lparr>precision = p, num_registers = m, registers = replicate (nat m) 0\<rparr>))"

definition HyperLogLog_hash :: "sha256_fn \<Rightarrow> string \<Rightarrow> int" where
  "HyperLogLog_hash sha256 item = uint (sha256 item)"

text \<open>
  The loop of \<open>_count_leading_zeros\<close> walks the bit positions from \<open>max_bits - 1\<close> down and
  returns at the first set bit.
\<close>

fun count_leading_zeros_loop :: "int \<Rightarrow> int list \<Rightarrow> int \<Rightarrow> int" where
  "count_leading_zeros_loop v [] zeros = zeros + 1"
| "count_leading_zeros_loop v (i # rest) zeros =
     (if v AND push_bit (nat i) 1 \<noteq> 0 then zeros + 1
      else count_leading_zeros_loop v rest (zeros + 1))"

definition count_leading_zeros :: "int \<Rightarrow> int \<Rightarrow> int" where
  "count_leading_zeros v max_bits =
     (if v = 0 then max_bits + 1
      else count_leading_zeros_loop v (py_range_down (max_bits - 1)) 0)"

definition HyperLogLog_add ::
  "sha256_fn \<Rightarrow> HyperLogLog \<Rightarrow> string \<Rightarrow> error + HyperLogLog" where
  "HyperLogLog_add sha256 self item =
     (let hash_value = HyperLogLog_hash sha256 item
      in bindE (py_rshift hash_value (64 - precision self)) (\<lambda>register_index.
         bindE (py_lshift 1 (64 - precision self)) (\<lambda>shifted.
         let remaining_bits = hash_value AND (shifted - 1);
             rho = count_leading_zeros remaining_bits (64 - precision self)
         in bindE (py_get (registers self) register_index) (\<lambda>old.
            bindE (py_set (registers self) register_index (max old rho)) (\<lambda>rs.
            Inr (self\<lparr>registers := rs\<rparr>))))))"

text \<open>
  \<open>merge\<close> reads the two operands and writes only the structure it has just built. Here
  the operands are values; the section on the store below models the same method on
  references.
\<close>

definition merge_register ::
  "HyperLogLog \<Rightarrow> HyperLogLog \<Rightarrow> int \<Rightarrow> HyperLogLog \<Rightarrow> error + HyperLogLog" where
  "merge_register self other i merged =
     bindE (py_get (registers self) i) (\<lambda>a.
     bindE (py_get (registers other) i) (\<lambda>b.
     bindE (py_set (registers merged) i (max a b)) (\<lambda>rs.
     Inr (merged\<lparr>registers := rs\<rparr>))))"

definition HyperLogLog_merge :: "HyperLogLog \<Rightarrow> HyperLogLog \<Rightarrow> error + HyperLogLog" where
  "HyperLogLog_merge self other =
     (if precision self \<noteq> precision other
      then Inl (ValueError ''HyperLogLogs must have the same precision'')
      else bindE (HyperLogLog_init (precision self)) (\<lambda>merged.
           for_each (merge_register self other) (py_range (num_registers self)) merged))"

text \<open>A HyperLogLog of precision \<open>p\<close> that has observed a stream of items.\<close>

definition HyperLogLog_add_all ::
  "sha256_fn \<Rightarrow> string list \<Rightarrow> HyperLogLog \<Rightarrow> error + HyperLogLog" where
  "HyperLogLog_add_all sha256 stream self =
     for_each (\<lambda>item s. HyperLogLog_add sha256 s item) stream self"

definition HyperLogLog_observe :: "sha256_fn \<Rightarrow> int \<Rightarrow> string list \<Rightarrow> error + HyperLogLog" where
  "HyperLogLog_observe sha256 p stream =
     bindE (HyperLogLog_init p) (HyperLogLog_add_all sha256 stream)"

text \<open>The structures a caller can build: constructed, then changed by adds and merges.\<close>

inductive HyperLogLog_reachable :: "sha256_fn \<Rightarrow> HyperLogLog \<Rightarrow> bool" for sha256 where
  created: "HyperLogLog_init p = Inr s \<Longrightarrow> HyperLogLog_reachable sha256 s"
| added: "HyperLogLog_reachable sha256 s \<Longrightarrow> HyperLogLog_add sha256 s item = Inr t \<Longrightarrow>
     HyperLogLog_reachable sha256 t"
| merged: "HyperLogLog_reachable sha256 a \<Longrightarrow> HyperLogLog_reachable sha256 b \<Longrightarrow>
     HyperLogLog_merge a b = Inr m \<Longrightarrow> HyperLogLog_reachable sha256 m"

text \<open>
  A stand-in for the 64-bit hash whose top four bits vary with the length of the item.
\<close>

definition sample_hash64 :: sha256_fn where
  "sample_hash64 item = push_bit 60 (of_nat (length item)) + of_nat (sum_list (map of_char item))"

text \<open>
  What the proofs say about a HyperLogLog: its shape as \<open>__init__\<close> builds it, and the
  register and the rank that \<open>add\<close> derives from an item.
\<close>

definition HyperLogLog_wf :: "HyperLogLog \<Rightarrow> bool" where
  "HyperLogLog_wf s \<longleftrightarrow>
     4 \<le> precision s \<and> precision s \<le> 18 \<and> num_registers s = 2 ^ nat (precision s) \<and>
     length (registers s) = 2 ^ nat (precision s)"

definition register_of :: "sha256_fn \<Rightarrow> int \<Rightarrow> string \<Rightarrow> nat" where
  "register_of sha256 p item = nat (drop_bit (nat (64 - p)) (uint (sha256 item)))"

definition rank_of :: "sha256_fn \<Rightarrow> int \<Rightarrow> string \<Rightarrow> int" where
  "rank_of sha256 p item =
     count_leading_zeros (uint (sha256 item) AND (push_bit (nat (64 - p)) 1 - 1)) (64 - p)"

text \<open>
  The register array after a stream of adds, as a fold over the items, and the same for
  one register alone.
\<close>

definition observed_registers :: "sha256_fn \<Rightarrow> int \<Rightarrow> string list \<Rightarrow> int list \<Rightarrow> int list" where
  "observed_registers sha256 p stream rs =
     fold (\<lambda>item rs. rs[register_of sha256 p item :=
             max (rs ! register_of sha256 p item) (rank_of sha256 p item)]) stream rs"

definition observed_rank :: "sha256_fn \<Rightarrow> int \<Rightarrow> nat \<Rightarrow> string list \<Rightarrow> int \<Rightarrow> int" where
  "observed_rank sha256 p j stream m =
     fold (\<lambda>item m. if register_of sha256 p item = j then max m (rank_of sha256 p item) else m)
       stream m"

section \<open>Count-Min Sketch: \<open>merge\<close>\<close>

text \<open>
  The body of the inner loop of \<open>merge\<close>:
  \<open>merged.table[row][col] = self.table[row][col] + other.table[row][col]\<close>. As for the
  HyperLogLog the operands are values here, and references in the section on the store.
\<close>

definition merge_cell ::
  "CountMinSketch \<Rightarrow> CountMinSketch \<Rightarrow> int \<Rightarrow> int \<Rightarrow> CountMinSketch \<Rightarrow> error + CountMinSketch" where
  "merge_cell self other row col merged =
     bindE (cell_get (table self) row col) (\<lambda>a.
     bindE (cell_get (table other) row col) (\<lambda>b.
     bindE (cell_set (table merged) row col (a + b)) (\<lambda>t.
     Inr (merged\<lparr>table := t\<rparr>))))"

definition merge_row ::
  "CountMinSketch \<Rightarrow> CountMinSketch \<Rightarrow> int \<Rightarrow> CountMinSketch \<Rightarrow> error + CountMinSketch" where
  "merge_row self other row merged =
     for_each (merge_cell self other row) (py_range (width self)) merged"

definition CountMinSketch_merge ::
  "CountMinSketch \<Rightarrow> CountMinSketch \<Rightarrow> error + CountMinSketch" where
  "CountMinSketch_merge self other =
     (if width self \<noteq> width other \<or> depth self \<noteq> depth other
      then Inl (ValueError ''Sketches must have the same dimensions'')
      else bindE (for_each (merge_row self other) (py_range (depth self))
                    (CountMinSketch_init (width self) (depth self))) (\<lambda>merged.
           Inr (merged\<lparr>total_count := total_count self + total_count other\<rparr>)))"

text \<open>The shape of the table that \<open>__init__\<close> builds, for any width and depth.\<close>

definition CountMinSketch_shaped :: "CountMinSketch \<Rightarrow> bool" where
  "CountMinSketch_shaped s \<longleftrightarrow>
     length (table s) = nat (depth s) \<and> (\<forall>r \<in> set (table s). length r = nat (width s))"

section \<open>\<open>merge\<close> on references: the store\<close>

text \<open>
  \<open>merge\<close> handles three objects: \<open>self\<close>, \<open>other\<close> and the structure it constructs and
  returns. To say which of them a call writes, the objects are put in a store, a list in
  which a reference is an index; \<open>self\<close> and \<open>other\<close> may be the same reference. A
  constructor call places the new object at the next free index. Every read and write
  of the method goes through the store, at the reference the source names.
\<close>

definition allocate :: "'a \<Rightarrow> 'a list \<Rightarrow> nat \<times> 'a list" where
  "allocate obj store = (length store, store @ [obj])"

text \<open>\<open>merged.registers[i] = max(self.registers[i], other.registers[i])\<close>\<close>

definition HyperLogLog_merge_register_at ::
  "nat \<Rightarrow> nat \<Rightarrow> nat \<Rightarrow> int \<Rightarrow> HyperLogLog list \<Rightarrow> error + HyperLogLog list" where
  "HyperLogLog_merge_register_at self other merged i store =
     bindE (py_get (registers (store ! self)) i) (\<lambda>a.
     bindE (py_get (registers (store ! other)) i) (\<lambda>b.
     bindE (py_set (registers (store ! merged)) i (max a b)) (\<lambda>rs.
     Inr (store[merged := (store ! merged)\<lparr>registers := rs\<rparr>]))))"

definition HyperLogLog_merge_at ::
  "HyperLogLog list \<Rightarrow> nat \<Rightarrow> nat \<Rightarrow> error + nat \<times> HyperLogLog list" where
  "HyperLogLog_merge_at store self other =
     (if precision (store ! self) \<noteq> precision (store ! other)
      then Inl (ValueError ''HyperLogLogs must have the same precision'')
      else bindE (HyperLogLog_init (precision (store ! self))) (\<lambda>obj.
           let (merged, store1) = allocate obj store
           in bindE (for_each (HyperLogLog_merge_register_at self other merged)
                       (py_range (num_registers (store1 ! self))) store1) (\<lambda>store2.
              Inr (merged, store2))))"

text \<open>\<open>merged.table[row][col] = self.table[row][col] + other.table[row][col]\<close>\<close>

definition CountMinSketch_merge_cell_at ::
  "nat \<Rightarrow> nat \<Rightarrow> nat \<Rightarrow> int \<Rightarrow> int \<Rightarrow> CountMinSketch list \<Rightarrow> error + CountMinSketch list" where
  "CountMinSketch_merge_cell_at self other merged row col store =
     bindE (cell_get (table (store ! self)) row col) (\<lambda>a.
     bindE (cell_get (table (store ! other)) row col) (\<lambda>b.
     bindE (cell_set (table (store ! merged)) row col (a + b)) (\<lambda>t.
     Inr (store[merged := (store ! merged)\<lparr>table := t\<rparr>]))))"

definition CountMinSketch_merge_row_at ::
  "nat \<Rightarrow> nat \<Rightarrow> nat \<Rightarrow> int \<Rightarrow> CountMinSketch list \<Rightarrow> error + CountMinSketch list" where
  "CountMinSketch_merge_row_at self other merged row store =
     for_each (CountMinSketch_merge_cell_at self other merged row)
       (py_range (width (store ! self))) store"

definition CountMinSketch_merge_at ::
  "CountMinSketch list \<Rightarrow> nat \<Rightarrow> nat \<Rightarrow> error + nat \<times> CountMinSketch list" where
  "CountMinSketch_merge_at store self other =
     (if width (store ! self) \<noteq> width (store ! other) \<or>
         depth (store ! self) \<noteq> depth (store ! other)
      then Inl (ValueError ''Sketches must have the same dimensions'')
      else let (merged, store1) =
                 allocate (CountMinSketch_init (width (store ! self)) (depth (store ! self))) store
           in bindE (for_each (CountMinSketch_merge_row_at self other merged)
                       (py_range (depth (store1 ! self))) store1) (\<lambda>store2.
              Inr (merged,
                   store2[merged := (store2 ! merged)
                     \<lparr>total_count := total_count (store2 ! self) + total_count (store2 ! other)\<rparr>])))"

section \<open>Bloom filter: no false negatives\<close>

lemma bindE_simps:
  "bindE (Inl e) f = Inl e"
  "bindE (Inr x) f = f x"
  by (simp_all add: bindE_def)

lemma py_index_in_range:
  "0 \<le> i \<Longrightarrow> i < int (length xs) \<Longrightarrow> py_index xs i = Inr (nat i)"
  by (simp add: py_index_def)

lemma py_get_in_range:
  "0 \<le> i \<Longrightarrow> i < int (length xs) \<Longrightarrow> py_get xs i = Inr (xs ! nat i)"
  by (simp add: py_get_def py_index_in_range bindE_simps)

lemma py_set_in_range:
  "0 \<le> i \<Longrightarrow> i < int (length xs) \<Longrightarrow> py_set xs i v = Inr (xs[nat i := v])"
  by (simp add: py_set_def py_index_in_range bindE_simps)

lemma for_each_append:
  "for_each body (xs @ ys) s =
     (case for_each body xs s of Inl e \<Rightarrow> Inl e | Inr s' \<Rightarrow> for_each body ys s')"
  by (induction xs arbitrary: s) (auto split: sum.splits)

lemma bloom_index_range:
  "0 < m \<Longrightarrow> 0 \<le> bloom_index md5 sha1 m item i \<and> bloom_index md5 sha1 m item i < m"
  by (simp add: bloom_index_def)

lemma BloomFilter_hash_wf:
  "0 < BloomFilter.num_bits s \<Longrightarrow>
   BloomFilter_hash md5 sha1 s item i = Inr (bloom_index md5 sha1 (BloomFilter.num_bits s) item i)"
  by (simp add: BloomFilter_hash_def py_mod_def bloom_index_def Let_def)

lemma byte_index_range:
  assumes "BloomFilter_wf s" "0 \<le> idx" "idx < BloomFilter.num_bits s"
  shows "0 \<le> idx div 8 \<and> idx div 8 < int (length (bits s))"
  using assms unfolding BloomFilter_wf_def by auto

lemma BloomFilter_set_bit_wf:
  assumes "BloomFilter_wf s" "0 \<le> idx" "idx < BloomFilter.num_bits s"
  shows "BloomFilter_set_bit s idx =
     Inr (s\<lparr>bits := (bits s)[nat (idx div 8) :=
            bits s ! nat (idx div 8) OR push_bit (nat (idx mod 8)) 1]\<rparr>)"
  using byte_index_range [OF assms]
  by (simp add: BloomFilter_set_bit_def Let_def py_get_in_range py_set_in_range bindE_simps)

lemma BloomFilter_get_bit_wf:
  assumes "BloomFilter_wf s" "0 \<le> idx" "idx < BloomFilter.num_bits s"
  shows "BloomFilter_get_bit s idx = Inr (bit_at s idx)"
  using byte_index_range [OF assms]
  by (simp add: BloomFilter_get_bit_def Let_def py_get_in_range bindE_simps bit_at_def
      bit_iff_and_push_bit_not_eq_0)

lemma or_update_keeps_bit:
  fixes xs :: "8 word list"
  assumes "k < length xs" "bit (xs ! n) b"
  shows "bit (xs[k := xs ! k OR m] ! n) b"
  using assms by (cases "n = k") (simp_all add: bit_or_iff)

lemma set_bit_extends:
  assumes "BloomFilter_wf s" "0 \<le> idx" "idx < BloomFilter.num_bits s"
  shows "\<exists>s'. BloomFilter_set_bit s idx = Inr s' \<and> bloom_extends s s' \<and> bit_at s' idx
     \<and> BloomFilter.num_items s' = BloomFilter.num_items s"
proof -
  let ?s' = "s\<lparr>bits := (bits s)[nat (idx div 8) :=
            bits s ! nat (idx div 8) OR push_bit (nat (idx mod 8)) 1]\<rparr>"
  have r: "0 \<le> idx div 8" "idx div 8 < int (length (bits s))"
    using byte_index_range [OF assms] by auto
  have m: "nat (idx mod 8) < 8" by simp
  have "bit_at ?s' idx"
    using r m by (simp add: bit_at_def bit_or_iff bit_exp_iff)
  moreover have "bloom_extends s ?s'"
  proof -
    have k: "nat (idx div 8) < length (bits s)" using r by simp
    have "BloomFilter_wf ?s'" using assms(1) by (simp add: BloomFilter_wf_def)
    moreover have "bit_at ?s' j" if "bit_at s j" for j
      using that or_update_keeps_bit [OF k] by (simp add: bit_at_def)
    ultimately show ?thesis by (simp add: bloom_extends_def)
  qed
  ultimately show ?thesis
    using BloomFilter_set_bit_wf [OF assms] by simp
qed

lemma bloom_extends_refl: "BloomFilter_wf s \<Longrightarrow> bloom_extends s s"
  by (simp add: bloom_extends_def)

lemma bloom_extends_trans:
  "bloom_extends s t \<Longrightarrow> bloom_extends t u \<Longrightarrow> bloom_extends s u"
  by (simp add: bloom_extends_def)

lemma bloom_extends_wf: "bloom_extends s t \<Longrightarrow> BloomFilter_wf t"
  by (simp add: bloom_extends_def)

lemma add_loop_extends:
  assumes "BloomFilter_wf s"
  shows "\<exists>s'. for_each (\<lambda>i t. bindE (BloomFilter_hash md5 sha1 t item i) (BloomFilter_set_bit t))
            seeds s = Inr s' \<and> bloom_extends s s' \<and>
          BloomFilter.num_items s' = BloomFilter.num_items s \<and>
          (\<forall>i \<in> set seeds. bit_at s' (bloom_index md5 sha1 (BloomFilter.num_bits s) item i))"
  using assms
proof (induction seeds arbitrary: s)
  case Nil
  then show ?case by (simp add: bloom_extends_refl)
next
  case (Cons i seeds)
  let ?m = "BloomFilter.num_bits s"
  let ?idx = "bloom_index md5 sha1 ?m item i"
  have pos: "0 < ?m" using Cons.prems by (simp add: BloomFilter_wf_def)
  have rng: "0 \<le> ?idx" "?idx < ?m"
    using bloom_index_range [OF pos] by auto
  obtain t where t: "BloomFilter_set_bit s ?idx = Inr t" "bloom_extends s t" "bit_at t ?idx"
      "BloomFilter.num_items t = BloomFilter.num_items s"
    using set_bit_extends [OF Cons.prems rng] by blast
  have step: "bindE (BloomFilter_hash md5 sha1 s item i) (BloomFilter_set_bit s) = Inr t"
    by (simp add: BloomFilter_hash_wf [OF pos] bindE_simps t(1))
  have mt: "BloomFilter.num_bits t = ?m" using t(2) by (simp add: bloom_extends_def)
  obtain u where u: "for_each (\<lambda>i t. bindE (BloomFilter_hash md5 sha1 t item i) (BloomFilter_set_bit t))
            seeds t = Inr u" "bloom_extends t u" "BloomFilter.num_items u = BloomFilter.num_items t"
          "\<forall>i \<in> set seeds. bit_at u (bloom_index md5 sha1 ?m item i)"
    using Cons.IH [OF bloom_extends_wf [OF t(2)]] mt by auto
  have "bit_at u ?idx"
    using u(2) t(3) rng mt by (simp add: bloom_extends_def)
  then show ?case
    using step u t(4) bloom_extends_trans [OF t(2) u(2)] by simp
qed

lemma BloomFilter_add_extends:
  assumes "BloomFilter_wf s"
  shows "\<exists>s'. BloomFilter_add md5 sha1 s item = Inr s' \<and> bloom_extends s s' \<and>
          BloomFilter.num_items s' = BloomFilter.num_items s + 1 \<and>
          (\<forall>i \<in> set (py_range (BloomFilter.num_hashes s)).
              bit_at s' (bloom_index md5 sha1 (BloomFilter.num_bits s) item i))"
proof -
  obtain t where t: "for_each (\<lambda>i t. bindE (BloomFilter_hash md5 sha1 t item i) (BloomFilter_set_bit t))
            (py_range (BloomFilter.num_hashes s)) s = Inr t" "bloom_extends s t"
          "BloomFilter.num_items t = BloomFilter.num_items s"
          "\<forall>i \<in> set (py_range (BloomFilter.num_hashes s)).
              bit_at t (bloom_index md5 sha1 (BloomFilter.num_bits s) item i)"
    using add_loop_extends [OF assms] by blast
  let ?s' = "t\<lparr>BloomFilter.num_items := BloomFilter.num_items t + 1\<rparr>"
  have "BloomFilter_add md5 sha1 s item = Inr ?s'"
    by (simp add: BloomFilter_add_def t(1) bindE_simps)
  moreover have "bloom_extends s ?s'"
    using t(2) by (simp add: bloom_extends_def BloomFilter_wf_def bit_at_def)
  moreover have "\<forall>i \<in> set (py_range (BloomFilter.num_hashes s)).
              bit_at ?s' (bloom_index md5 sha1 (BloomFilter.num_bits s) item i)"
    using t(4) by (simp add: bit_at_def)
  ultimately show ?thesis using t(3) by simp
qed

lemma bloom_holds_extends:
  assumes "bloom_holds md5 sha1 s item" "bloom_extends s t" "0 < BloomFilter.num_bits s"
  shows "bloom_holds md5 sha1 t item"
  using assms bloom_index_range [of "BloomFilter.num_bits s" md5 sha1 item]
  by (simp add: bloom_holds_def bloom_extends_def)

lemma BloomFilter_add_all_extends:
  assumes "BloomFilter_wf s"
  shows "\<exists>s'. BloomFilter_add_all md5 sha1 items s = Inr s' \<and> bloom_extends s s' \<and>
          (\<forall>x \<in> set items. bloom_holds md5 sha1 s' x)"
  using assms
proof (induction items arbitrary: s)
  case Nil
  then show ?case by (simp add: BloomFilter_add_all_def bloom_extends_refl)
next
  case (Cons x items)
  obtain t where t: "BloomFilter_add md5 sha1 s x = Inr t" "bloom_extends s t"
      "\<forall>i \<in> set (py_range (BloomFilter.num_hashes s)).
              bit_at t (bloom_index md5 sha1 (BloomFilter.num_bits s) x i)"
    using BloomFilter_add_extends [OF Cons.prems] by blast
  have eq: "BloomFilter.num_bits t = BloomFilter.num_bits s"
      "BloomFilter.num_hashes t = BloomFilter.num_hashes s"
    using t(2) by (simp_all add: bloom_extends_def)
  have wt: "BloomFilter_wf t" by (rule bloom_extends_wf [OF t(2)])
  have hx: "bloom_holds md5 sha1 t x" using t(3) eq by (simp add: bloom_holds_def)
  obtain u where u: "BloomFilter_add_all md5 sha1 items t = Inr u" "bloom_extends t u"
      "\<forall>y \<in> set items. bloom_holds md5 sha1 u y"
    using Cons.IH [OF wt] by blast
  have pos: "0 < BloomFilter.num_bits t" using wt by (simp add: BloomFilter_wf_def)
  have "bloom_holds md5 sha1 u x" by (rule bloom_holds_extends [OF hx u(2) pos])
  moreover have "BloomFilter_add_all md5 sha1 (x # items) s = Inr u"
    using t(1) u(1) by (simp add: BloomFilter_add_all_def)
  ultimately show ?case
    using u(3) bloom_extends_trans [OF t(2) u(2)] by auto
qed

lemma BloomFilter_query_loop_holds:
  assumes "BloomFilter_wf s"
      "\<forall>i \<in> set seeds. bit_at s (bloom_index md5 sha1 (BloomFilter.num_bits s) item i)"
  shows "BloomFilter_query_loop md5 sha1 s item seeds = Inr True"
  using assms(2)
proof (induction seeds)
  case Nil
  then show ?case by simp
next
  case (Cons i seeds)
  let ?idx = "bloom_index md5 sha1 (BloomFilter.num_bits s) item i"
  have pos: "0 < BloomFilter.num_bits s" using assms(1) by (simp add: BloomFilter_wf_def)
  have rng: "0 \<le> ?idx" "?idx < BloomFilter.num_bits s"
    using bloom_index_range [OF pos] by auto
  have "BloomFilter_get_bit s ?idx = Inr True"
    using BloomFilter_get_bit_wf [OF assms(1) rng] Cons.prems by simp
  then show ?case
    using Cons by (simp add: BloomFilter_hash_wf [OF pos])
qed

lemma BloomFilter_query_holds:
  "BloomFilter_wf s \<Longrightarrow> bloom_holds md5 sha1 s item \<Longrightarrow>
   BloomFilter_query md5 sha1 s item = Inr True"
  by (simp add: BloomFilter_query_def bloom_holds_def BloomFilter_query_loop_holds)

lemma BloomFilter_init_cases:
  "BloomFilter_init py nb nh =
     (if (nb + 7) div 8 < - maxsize py - 1 \<or> maxsize py < (nb + 7) div 8 then Inl OverflowError
      else if (nb + 7) div 8 < 0 then Inl (ValueError ''negative count'')
      else if available py < (nb + 7) div 8 then Inl MemoryError
      else Inr (fresh_BloomFilter nb nh))"
  by (simp add: BloomFilter_init_def bytearray_def bindE_simps fresh_BloomFilter_def)

lemma BloomFilter_init_wf:
  assumes "BloomFilter_init py nb nh = Inr s" and "0 < nb"
  shows "BloomFilter_wf s \<and> BloomFilter.num_bits s = nb \<and> BloomFilter.num_hashes s = nh"
proof -
  have "s = fresh_BloomFilter nb nh"
    using assms(1) by (simp add: BloomFilter_init_cases split: if_splits)
  then show ?thesis
    using assms(2) by (simp add: fresh_BloomFilter_def BloomFilter_wf_def)
qed

lemma BloomFilter_init_granted:
  assumes "0 < nb" and "(nb + 7) div 8 \<le> maxsize py" and "(nb + 7) div 8 \<le> available py"
  shows "BloomFilter_init py nb nh = Inr (fresh_BloomFilter nb nh)"
proof -
  have "0 < (nb + 7) div 8" using assms(1) by presburger
  then show ?thesis using assms(2,3) by (simp add: BloomFilter_init_cases)
qed

text \<open>
  Claim C1. A Bloom filter built with \<open>num_bits > 0\<close> and \<open>num_hashes \<ge> 1\<close> has no false
  negatives: whatever items are added before and after \<open>x\<close>, every add returns, and the
  query of \<open>x\<close> on the resulting filter returns \<open>True\<close>. The constructor returns such a
  filter whenever the interpreter grants the byte array.
\<close>

theorem BloomFilter_no_false_negatives:
  assumes "0 < nb" and "1 \<le> nh"
  shows "((nb + 7) div 8 \<le> maxsize py \<and> (nb + 7) div 8 \<le> available py \<longrightarrow>
       (\<exists>bf0. BloomFilter_init py nb nh = Inr bf0)) \<and>
     (\<forall>bf0. BloomFilter_init py nb nh = Inr bf0 \<longrightarrow>
       (\<exists>bf. BloomFilter_add_all md5 sha1 (before @ x # after) bf0 = Inr bf \<and>
          BloomFilter_query md5 sha1 bf x = Inr True))"
proof (intro conjI impI allI)
  assume "(nb + 7) div 8 \<le> maxsize py \<and> (nb + 7) div 8 \<le> available py"
  then show "\<exists>bf0. BloomFilter_init py nb nh = Inr bf0"
    using BloomFilter_init_granted [OF assms(1)] by blast
next
  fix bf0 assume "BloomFilter_init py nb nh = Inr bf0"
  then have b0: "BloomFilter_wf bf0"
    using BloomFilter_init_wf [OF _ assms(1)] by blast
  obtain bf where bf: "BloomFilter_add_all md5 sha1 (before @ x # after) bf0 = Inr bf"
      "bloom_extends bf0 bf" "\<forall>y \<in> set (before @ x # after). bloom_holds md5 sha1 bf y"
    using BloomFilter_add_all_extends [OF b0] by blast
  have "bloom_holds md5 sha1 bf x" using bf(3) by simp
  then have "BloomFilter_query md5 sha1 bf x = Inr True"
    using BloomFilter_query_holds bloom_extends_wf [OF bf(2)] by blast
  then show "\<exists>bf. BloomFilter_add_all md5 sha1 (before @ x # after) bf0 = Inr bf \<and>
      BloomFilter_query md5 sha1 bf x = Inr True"
    using bf(1) by blast
qed

theorem BloomFilter_no_false_negatives_witness:
  "(0::int) < 16 \<and> (1::int) \<le> 3 \<and>
   (\<exists>bf0 bf. BloomFilter_init sample_interpreter 16 3 = Inr bf0 \<and>
     BloomFilter_add_all sample_md5 sample_sha1 ([''apple''] @ ''kiwi'' # [''banana'']) bf0 = Inr bf \<and>
     BloomFilter_query sample_md5 sample_sha1 bf ''kiwi'' = Inr True)"
proof -
  have g: "(16 + 7) div 8 \<le> maxsize sample_interpreter \<and>
      (16 + 7) div 8 \<le> available sample_interpreter"
    by (simp add: sample_interpreter_def)
  have "(0::int) < 16" "(1::int) \<le> 3" by simp_all
  from BloomFilter_no_false_negatives [OF this,
      of sample_interpreter sample_md5 sample_sha1 "[''apple'']" "''kiwi''" "[''banana'']"] g
  have "\<exists>bf0 bf. BloomFilter_init sample_interpreter 16 3 = Inr bf0 \<and>
     BloomFilter_add_all sample_md5 sample_sha1 ([''apple''] @ ''kiwi'' # [''banana'']) bf0 = Inr bf \<and>
     BloomFilter_query sample_md5 sample_sha1 bf ''kiwi'' = Inr True"
    by blast
  then show ?thesis by simp
qed

lemma add_on_empty_bits:
  assumes "1 \<le> BloomFilter.num_hashes s" "bits s = []"
  shows "BloomFilter_add md5 sha1 s item =
     Inl (if BloomFilter.num_bits s = 0 then ZeroDivisionError else IndexError)"
proof -
  have r: "py_range (BloomFilter.num_hashes s) = 0 # map int [1..<nat (BloomFilter.num_hashes s)]"
    using assms(1) by (simp add: py_range_def upt_conv_Cons)
  show ?thesis
    using assms(2)
    by (simp add: BloomFilter_add_def r BloomFilter_hash_def py_mod_def bindE_simps Let_def
        BloomFilter_set_bit_def py_get_def py_index_def)
qed

lemma query_on_empty_bits:
  assumes "1 \<le> BloomFilter.num_hashes s" "bits s = []"
  shows "BloomFilter_query md5 sha1 s item =
     Inl (if BloomFilter.num_bits s = 0 then ZeroDivisionError else IndexError)"
proof -
  have r: "py_range (BloomFilter.num_hashes s) = 0 # map int [1..<nat (BloomFilter.num_hashes s)]"
    using assms(1) by (simp add: py_range_def upt_conv_Cons)
  show ?thesis
    using assms(2)
    by (simp add: BloomFilter_query_def r BloomFilter_hash_def py_mod_def bindE_simps Let_def
        BloomFilter_get_bit_def py_get_def py_index_def)
qed

lemma fresh_BloomFilter_empty:
  assumes "- 8 < nb" and "nb \<le> 0"
  shows "bits (fresh_BloomFilter nb nh) = []"
proof -
  have "(nb + 7) div 8 = 0" using assms by presburger
  then show ?thesis by (simp add: fresh_BloomFilter_def)
qed

section \<open>Bloom filter: construction\<close>

text \<open>
  Claim C7, as stated, asks \<open>__init__\<close> to reject \<open>num_bits \<le> 0\<close> and \<open>num_hashes < 1\<close>.
  The constructor has no check: with both arguments zero it returns a filter.
\<close>

theorem BloomFilter_init_unchecked_counterexample:
  "BloomFilter_init sample_interpreter 0 0 =
     Inr \<lparr>num_bits = 0, num_hashes = 0, num_items = 0, bits = []\<rparr>"
  by (simp add: BloomFilter_init_def bytearray_def bindE_simps sample_interpreter_def)

text \<open>
  Claim C7, amended. Construction with explicit dimensions checks neither argument.
  \<open>num_hashes\<close> is stored as it comes, and \<open>num_bits\<close> only decides the length
  \<open>(num_bits + 7) // 8\<close> asked of \<open>bytearray\<close>: construction fails exactly when that
  allocation fails (\<open>ValueError\<close> for a negative length, that is \<open>num_bits \<le> -8\<close>;
  \<open>OverflowError\<close> for a length outside the index range; \<open>MemoryError\<close> when the allocator
  refuses) and otherwise returns the filter. For \<open>num_bits\<close> in \<open>-7..0\<close> the length is 0, so
  on an interpreter that grants the empty byte array construction succeeds whatever
  \<open>num_hashes\<close> is, and with \<open>num_hashes \<ge> 1\<close> the bad size is met later: the first add or
  query raises (\<open>ZeroDivisionError\<close> for 0, \<open>IndexError\<close> below).
\<close>

theorem BloomFilter_init_unchecked:
  "BloomFilter_init py nb nh =
     (if (nb + 7) div 8 < - maxsize py - 1 \<or> maxsize py < (nb + 7) div 8 then Inl OverflowError
      else if nb \<le> - 8 then Inl (ValueError ''negative count'')
      else if available py < (nb + 7) div 8 then Inl MemoryError
      else Inr (fresh_BloomFilter nb nh)) \<and>
   (0 \<le> maxsize py \<and> 0 \<le> available py \<and> - 8 < nb \<and> nb \<le> 0 \<longrightarrow>
      BloomFilter_init py nb nh = Inr (fresh_BloomFilter nb nh) \<and>
      bits (fresh_BloomFilter nb nh) = [] \<and>
      (1 \<le> nh \<longrightarrow>
         BloomFilter_add md5 sha1 (fresh_BloomFilter nb nh) item =
           Inl (if nb = 0 then ZeroDivisionError else IndexError) \<and>
         BloomFilter_query md5 sha1 (fresh_BloomFilter nb nh) item =
           Inl (if nb = 0 then ZeroDivisionError else IndexError)))"
proof (intro conjI impI)
  have n: "(nb + 7) div 8 < 0 \<longleftrightarrow> nb \<le> - 8" by presburger
  show "BloomFilter_init py nb nh =
     (if (nb + 7) div 8 < - maxsize py - 1 \<or> maxsize py < (nb + 7) div 8 then Inl OverflowError
      else if nb \<le> - 8 then Inl (ValueError ''negative count'')
      else if available py < (nb + 7) div 8 then Inl MemoryError
      else Inr (fresh_BloomFilter nb nh))"
    unfolding n [symmetric] by (rule BloomFilter_init_cases)
next
  assume a: "0 \<le> maxsize py \<and> 0 \<le> available py \<and> - 8 < nb \<and> nb \<le> 0"
  then have z: "(nb + 7) div 8 = 0" by presburger
  show "BloomFilter_init py nb nh = Inr (fresh_BloomFilter nb nh)"
    using a by (simp add: BloomFilter_init_cases z)
  show e: "bits (fresh_BloomFilter nb nh) = []"
    using a by (simp add: fresh_BloomFilter_empty)
  assume h: "1 \<le> nh"
  have f: "BloomFilter.num_hashes (fresh_BloomFilter nb nh) = nh"
      "BloomFilter.num_bits (fresh_BloomFilter nb nh) = nb"
    by (simp_all add: fresh_BloomFilter_def)
  show "BloomFilter_add md5 sha1 (fresh_BloomFilter nb nh) item =
      Inl (if nb = 0 then ZeroDivisionError else IndexError)"
    using add_on_empty_bits [of "fresh_BloomFilter nb nh" md5 sha1 item] e h by (simp add: f)
  show "BloomFilter_query md5 sha1 (fresh_BloomFilter nb nh) item =
      Inl (if nb = 0 then ZeroDivisionError else IndexError)"
    using query_on_empty_bits [of "fresh_BloomFilter nb nh" md5 sha1 item] e h by (simp add: f)
qed

theorem BloomFilter_init_unchecked_witness:
  "BloomFilter_init sample_interpreter 0 3 = Inr (fresh_BloomFilter 0 3) \<and>
   BloomFilter_add sample_md5 sample_sha1 (fresh_BloomFilter 0 3) ''kiwi'' =
     Inl ZeroDivisionError \<and>
   BloomFilter_query sample_md5 sample_sha1 (fresh_BloomFilter 0 3) ''kiwi'' =
     Inl ZeroDivisionError \<and>
   BloomFilter_init sample_interpreter (- 3) 1 = Inr (fresh_BloomFilter (- 3) 1) \<and>
   BloomFilter_add sample_md5 sample_sha1 (fresh_BloomFilter (- 3) 1) ''kiwi'' =
     Inl IndexError \<and>
   BloomFilter_init sample_interpreter (- 8) 1 = Inl (ValueError ''negative count'') \<and>
   BloomFilter_init sample_interpreter (2 ^ 66) 1 = Inl OverflowError \<and>
   BloomFilter_init sample_interpreter (2 ^ 40) 1 = Inl MemoryError"
proof -
  have p: "0 \<le> maxsize sample_interpreter" "0 \<le> available sample_interpreter"
      "maxsize sample_interpreter = 2 ^ 63 - 1" "available sample_interpreter = 2 ^ 30"
    by (simp_all add: sample_interpreter_def)
  show ?thesis
    using BloomFilter_init_unchecked [of sample_interpreter 0 3 sample_md5 sample_sha1 "''kiwi''"]
      BloomFilter_init_unchecked [of sample_interpreter "- 3" 1 sample_md5 sample_sha1 "''kiwi''"]
      BloomFilter_init_unchecked [of sample_interpreter "- 8" 1 sample_md5 sample_sha1 "''kiwi''"]
      BloomFilter_init_unchecked [of sample_interpreter "2 ^ 66" 1 sample_md5 sample_sha1 "''kiwi''"]
      BloomFilter_init_unchecked [of sample_interpreter "2 ^ 40" 1 sample_md5 sample_sha1 "''kiwi''"]
    by (simp add: p)
qed

section \<open>Counting Bloom filter: \<open>add\<close>\<close>

lemma list_comprehension_total:
  assumes "\<And>x. x \<in> set xs \<Longrightarrow> f x = Inr (g x)"
  shows "list_comprehension f xs = Inr (map g xs)"
  using assms by (induction xs) simp_all

lemma CountingBloomFilter_hash_wf:
  "0 < num_counters s \<Longrightarrow>
   CountingBloomFilter_hash md5 sha1 s item i = Inr (bloom_index md5 sha1 (num_counters s) item i)"
  by (simp add: CountingBloomFilter_hash_def py_mod_def bloom_index_def Let_def)

lemma target_indices_computed:
  "0 < num_counters s \<Longrightarrow>
   list_comprehension (CountingBloomFilter_hash md5 sha1 s item)
     (py_range (CountingBloomFilter.num_hashes s)) = Inr (target_indices md5 sha1 s item)"
  unfolding target_indices_def
  by (rule list_comprehension_total) (simp add: CountingBloomFilter_hash_wf)


lemma would_overflow_in_range:
  assumes "\<forall>idx \<in> set idxs. 0 \<le> idx \<and> idx < int (length (counters s))"
  shows "would_overflow s idxs = Inr (\<exists>idx \<in> set idxs. max_count s \<le> counters s ! nat idx)"
  using assms by (induction idxs) (simp_all add: py_get_in_range)

lemma incremented_Nil: "incremented [] cs = cs"
  by (simp add: incremented_def map_nth)

lemma length_incremented: "length (incremented idxs cs) = length cs"
  by (simp add: incremented_def)

lemma incremented_Cons:
  assumes "0 \<le> idx" "idx < int (length cs)"
  shows "incremented (idx # idxs) cs = incremented idxs (cs[nat idx := cs ! nat idx + 1])"
proof (rule nth_equalityI)
  show "length (incremented (idx # idxs) cs) =
      length (incremented idxs (cs[nat idx := cs ! nat idx + 1]))"
    by (simp add: length_incremented)
next
  fix j assume "j < length (incremented (idx # idxs) cs)"
  then have j: "j < length cs" by (simp add: length_incremented)
  have "int j = idx \<longleftrightarrow> j = nat idx" using assms(1) by auto
  then show "incremented (idx # idxs) cs ! j =
      incremented idxs (cs[nat idx := cs ! nat idx + 1]) ! j"
    using j by (auto simp: incremented_def nth_list_update)
qed

lemma increment_counter_in_range:
  assumes "0 \<le> idx" "idx < int (length (counters s))"
  shows "increment_counter idx s =
     Inr (s\<lparr>counters := (counters s)[nat idx := counters s ! nat idx + 1]\<rparr>)"
  using assms
  by (simp add: increment_counter_def py_get_in_range py_set_in_range bindE_simps)

lemma increment_loop:
  assumes "\<forall>idx \<in> set idxs. 0 \<le> idx \<and> idx < int (length (counters s))"
  shows "for_each increment_counter idxs s =
     Inr (s\<lparr>counters := incremented idxs (counters s)\<rparr>)"
  using assms
proof (induction idxs arbitrary: s)
  case Nil
  then show ?case by (simp add: incremented_Nil)
next
  case (Cons idx idxs)
  let ?t = "s\<lparr>counters := (counters s)[nat idx := counters s ! nat idx + 1]\<rparr>"
  have r: "0 \<le> idx" "idx < int (length (counters s))" using Cons.prems by auto
  have "\<forall>i \<in> set idxs. 0 \<le> i \<and> i < int (length (counters ?t))"
    using Cons.prems by simp
  then have "for_each increment_counter idxs ?t =
      Inr (?t\<lparr>counters := incremented idxs (counters ?t)\<rparr>)"
    by (rule Cons.IH)
  then show ?case
    using increment_counter_in_range [OF r] incremented_Cons [OF r, of idxs] by simp
qed


lemma CountingBloomFilter_init_shape:
  assumes "CountingBloomFilter_init nc nh cb = Inr s" and "0 < nc"
  shows "CountingBloomFilter_wf s \<and> 0 \<le> cb \<and> max_count s = 2 ^ nat cb - 1 \<and>
     (\<forall>c \<in> set (counters s). c \<le> max_count s)"
  using assms
  by (auto simp: CountingBloomFilter_init_def py_lshift_def bindE_simps CountingBloomFilter_wf_def
      split: if_splits)




section \<open>Counting Bloom filter: the counter bound\<close>

lemma single_counter_targets:
  "num_counters s = 1 \<Longrightarrow>
   target_indices md5 sha1 s item = replicate (nat (CountingBloomFilter.num_hashes s)) 0"
  by (simp add: target_indices_def bloom_index_def py_range_def comp_def map_replicate_const)

lemma count_list_replicate_same: "count_list (replicate k x) x = k"
  by (induction k) simp_all

lemma incremented_single: "incremented (replicate k 0) [c] = [c + int k]"
  by (simp add: incremented_def count_list_replicate_same)

lemma single_counter_add:
  assumes "num_counters s = 1" "counters s = [c]" "c < max_count s"
  shows "CountingBloomFilter_add md5 sha1 s item =
     Inr (True, s\<lparr>counters := [c + int (nat (CountingBloomFilter.num_hashes s))],
        CountingBloomFilter.num_items := CountingBloomFilter.num_items s + 1\<rparr>)"
proof -
  have pos: "0 < num_counters s" using assms(1) by simp
  let ?idxs = "replicate (nat (CountingBloomFilter.num_hashes s)) (0::int)"
  have rng: "\<forall>idx \<in> set ?idxs. 0 \<le> idx \<and> idx < int (length (counters s))"
    using assms(2) by simp
  have no: "\<not> (\<exists>idx \<in> set ?idxs. max_count s \<le> counters s ! nat idx)"
    using assms(2,3) by simp
  show ?thesis
    using no assms(2)
    by (simp add: CountingBloomFilter_add_def target_indices_computed [OF pos] bindE_simps
        single_counter_targets [OF assms(1)] would_overflow_in_range [OF rng]
        increment_loop [OF rng] incremented_single)
qed

text \<open>
  Claim C8 asks every counter to stay within \<open>[0, max_count]\<close>. The check of \<open>add\<close> looks at
  each target counter once and the loop after it increments once per target index, so a
  counter that several of the \<open>k\<close> indices share passes the check below \<open>max_count\<close> and
  ends above it. On \<open>CountingBloomFilter(1, 2, 1)\<close> one add leaves the counter at 2 with
  \<open>max_count = 1\<close>; on \<open>CountingBloomFilter(1, 16)\<close>, with the default four counter bits,
  one add leaves it at 16 with \<open>max_count = 15\<close>.
\<close>

theorem CountingBloomFilter_counter_exceeds_max:
  "CountingBloomFilter_init 1 2 1 =
     Inr \<lparr>num_counters = 1, num_hashes = 2, counter_bits = 1, max_count = 1,
       num_items = 0, counters = [0]\<rparr> \<and>
   CountingBloomFilter_add md5 sha1
     \<lparr>num_counters = 1, num_hashes = 2, counter_bits = 1, max_count = 1,
       num_items = 0, counters = [0]\<rparr> item =
   Inr (True, \<lparr>num_counters = 1, num_hashes = 2, counter_bits = 1, max_count = 1,
       num_items = 1, counters = [2]\<rparr>) \<and>
   CountingBloomFilter_init 1 16 4 =
     Inr \<lparr>num_counters = 1, num_hashes = 16, counter_bits = 4, max_count = 15,
       num_items = 0, counters = [0]\<rparr> \<and>
   CountingBloomFilter_add md5 sha1
     \<lparr>num_counters = 1, num_hashes = 16, counter_bits = 4, max_count = 15,
       num_items = 0, counters = [0]\<rparr> item =
   Inr (True, \<lparr>num_counters = 1, num_hashes = 16, counter_bits = 4, max_count = 15,
       num_items = 1, counters = [16]\<rparr>)"
proof -
  have i: "CountingBloomFilter_init 1 2 1 =
     Inr \<lparr>num_counters = 1, num_hashes = 2, counter_bits = 1, max_count = 1,
       num_items = 0, counters = [0]\<rparr>"
    "CountingBloomFilter_init 1 16 4 =
     Inr \<lparr>num_counters = 1, num_hashes = 16, counter_bits = 4, max_count = 15,
       num_items = 0, counters = [0]\<rparr>"
    by (simp_all add: CountingBloomFilter_init_def py_lshift_def bindE_simps)
  have a: "CountingBloomFilter_add md5 sha1
     \<lparr>num_counters = 1, num_hashes = 2, counter_bits = 1, max_count = 1,
       num_items = 0, counters = [0]\<rparr> item =
   Inr (True, \<lparr>num_counters = 1, num_hashes = 2, counter_bits = 1, max_count = 1,
       num_items = 1, counters = [2]\<rparr>)"
    by (subst single_counter_add [where c = 0]) simp_all
  have b: "CountingBloomFilter_add md5 sha1
     \<lparr>num_counters = 1, num_hashes = 16, counter_bits = 4, max_count = 15,
       num_items = 0, counters = [0]\<rparr> item =
   Inr (True, \<lparr>num_counters = 1, num_hashes = 16, counter_bits = 4, max_count = 15,
       num_items = 1, counters = [16]\<rparr>)"
    by (subst single_counter_add [where c = 0]) simp_all
  show ?thesis using i a b by simp
qed

text \<open>
  The other half of the bound holds: \<open>remove\<close> returns on every filter of the
  constructor's shape, raises no counter and takes none below 0.
\<close>

lemma counters_lowered_refl: "CountingBloomFilter_wf s \<Longrightarrow> counters_lowered s s"
  by (simp add: counters_lowered_def)

lemma counters_lowered_trans:
  assumes "counters_lowered s t" "counters_lowered t u"
  shows "counters_lowered s u"
proof -
  have len: "length (counters t) = length (counters s)" "length (counters u) = length (counters t)"
    using assms by (simp_all add: counters_lowered_def)
  have "counters u ! j \<le> counters s ! j \<and> (0 \<le> counters s ! j \<longrightarrow> 0 \<le> counters u ! j)"
    if "j < length (counters s)" for j
  proof -
    have "counters t ! j \<le> counters s ! j" "0 \<le> counters s ! j \<longrightarrow> 0 \<le> counters t ! j"
      using assms(1) that by (simp_all add: counters_lowered_def)
    moreover have "counters u ! j \<le> counters t ! j" "0 \<le> counters t ! j \<longrightarrow> 0 \<le> counters u ! j"
      using assms(2) that len by (simp_all add: counters_lowered_def)
    ultimately show ?thesis by linarith
  qed
  moreover have "CountingBloomFilter_wf u" "num_counters u = num_counters s"
      "CountingBloomFilter.num_hashes u = CountingBloomFilter.num_hashes s"
      "max_count u = max_count s" "length (counters u) = length (counters s)"
    using assms len by (simp_all add: counters_lowered_def)
  ultimately show ?thesis unfolding counters_lowered_def by blast
qed

lemma decrement_counter_lowers:
  assumes "CountingBloomFilter_wf s"
  shows "\<exists>t. decrement_counter md5 sha1 item i s = Inr t \<and> counters_lowered s t \<and>
     CountingBloomFilter.num_items t = CountingBloomFilter.num_items s"
proof -
  let ?idx = "bloom_index md5 sha1 (num_counters s) item i"
  have pos: "0 < num_counters s" using assms by (simp add: CountingBloomFilter_wf_def)
  have rng: "0 \<le> ?idx" "?idx < int (length (counters s))"
    using bloom_index_range [OF pos, of md5 sha1 item i] assms
    by (simp_all add: CountingBloomFilter_wf_def)
  show ?thesis
  proof (cases "0 < counters s ! nat ?idx")
    case True
    let ?t = "s\<lparr>counters := (counters s)[nat ?idx := counters s ! nat ?idx - 1]\<rparr>"
    have "decrement_counter md5 sha1 item i s = Inr ?t"
      using True rng
      by (simp add: decrement_counter_def CountingBloomFilter_hash_wf [OF pos] bindE_simps
          py_get_in_range py_set_in_range)
    moreover have "counters_lowered s ?t"
    proof -
      have k: "nat ?idx < length (counters s)" using rng by simp
      have "(counters s)[nat ?idx := counters s ! nat ?idx - 1] ! j \<le> counters s ! j \<and>
          (0 \<le> counters s ! j \<longrightarrow>
             0 \<le> (counters s)[nat ?idx := counters s ! nat ?idx - 1] ! j)" for j
        using True k by (cases "j = nat ?idx") simp_all
      then show ?thesis
        using assms by (simp add: counters_lowered_def CountingBloomFilter_wf_def)
    qed
    ultimately show ?thesis by simp
  next
    case False
    then have "decrement_counter md5 sha1 item i s = Inr s"
      using rng
      by (simp add: decrement_counter_def CountingBloomFilter_hash_wf [OF pos] bindE_simps
          py_get_in_range)
    then show ?thesis using counters_lowered_refl [OF assms] by simp
  qed
qed

lemma decrement_loop_lowers:
  assumes "CountingBloomFilter_wf s"
  shows "\<exists>t. for_each (decrement_counter md5 sha1 item) seeds s = Inr t \<and>
     counters_lowered s t \<and> CountingBloomFilter.num_items t = CountingBloomFilter.num_items s"
  using assms
proof (induction seeds arbitrary: s)
  case Nil
  then show ?case by (simp add: counters_lowered_refl)
next
  case (Cons i seeds)
  obtain t where t: "decrement_counter md5 sha1 item i s = Inr t" "counters_lowered s t"
      "CountingBloomFilter.num_items t = CountingBloomFilter.num_items s"
    using decrement_counter_lowers [OF Cons.prems] by blast
  have wt: "CountingBloomFilter_wf t" using t(2) by (simp add: counters_lowered_def)
  obtain u where u: "for_each (decrement_counter md5 sha1 item) seeds t = Inr u"
      "counters_lowered t u"
      "CountingBloomFilter.num_items u = CountingBloomFilter.num_items t"
    using Cons.IH [OF wt] by blast
  show ?case
    using t u counters_lowered_trans [OF t(2) u(2)] by simp
qed

lemma CountingBloomFilter_query_loop_total:
  assumes "CountingBloomFilter_wf s"
  shows "\<exists>b. CountingBloomFilter_query_loop md5 sha1 s item seeds = Inr b"
proof (induction seeds)
  case Nil
  show ?case by auto
next
  case (Cons i seeds)
  let ?idx = "bloom_index md5 sha1 (num_counters s) item i"
  have pos: "0 < num_counters s" using assms by (simp add: CountingBloomFilter_wf_def)
  have rng: "0 \<le> ?idx" "?idx < int (length (counters s))"
    using bloom_index_range [OF pos, of md5 sha1 item i] assms
    by (simp_all add: CountingBloomFilter_wf_def)
  show ?case
    using Cons rng by (auto simp: CountingBloomFilter_hash_wf [OF pos] py_get_in_range)
qed

lemma CountingBloomFilter_remove_lowers:
  assumes "CountingBloomFilter_wf s"
  shows "\<exists>b t. CountingBloomFilter_remove md5 sha1 s item = Inr (b, t) \<and> counters_lowered s t"
proof -
  obtain present where p: "CountingBloomFilter_query md5 sha1 s item = Inr present"
    using CountingBloomFilter_query_loop_total [OF assms, of md5 sha1 item
        "py_range (CountingBloomFilter.num_hashes s)"]
    unfolding CountingBloomFilter_query_def by blast
  show ?thesis
  proof (cases present)
    case False
    then show ?thesis
      using p counters_lowered_refl [OF assms]
      by (auto simp: CountingBloomFilter_remove_def bindE_simps)
  next
    case True
    obtain t where t: "for_each (decrement_counter md5 sha1 item)
          (py_range (CountingBloomFilter.num_hashes s)) s = Inr t" "counters_lowered s t"
      using decrement_loop_lowers [OF assms] by blast
    let ?t = "t\<lparr>CountingBloomFilter.num_items := CountingBloomFilter.num_items t - 1\<rparr>"
    have "CountingBloomFilter_wf ?t"
      using t(2) by (simp add: counters_lowered_def CountingBloomFilter_wf_def)
    then have "counters_lowered s ?t"
      using t(2) unfolding counters_lowered_def by simp
    then show ?thesis
      using True p t(1) by (auto simp: CountingBloomFilter_remove_def bindE_simps)
  qed
qed

section \<open>Count-Min Sketch: the estimate never under-counts\<close>

lemma CountMinSketch_hash_wf:
  "0 < width s \<Longrightarrow>
   CountMinSketch_hash sha256 s item (int row) = Inr (int (column sha256 (width s) item row))"
  by (simp add: CountMinSketch_hash_def py_mod_def column_def Let_def)

lemma column_range: "0 < w \<Longrightarrow> int (column sha256 w item row) < w"
  by (simp add: column_def)

lemma cell_get_in_range:
  assumes "row < length t" "col < length (t ! row)"
  shows "cell_get t (int row) (int col) = Inr (t ! row ! col)"
  using assms by (simp add: cell_get_def py_get_in_range bindE_simps)

lemma cell_set_in_range:
  assumes "row < length t" "col < length (t ! row)"
  shows "cell_set t (int row) (int col) v = Inr (t[row := (t ! row)[col := v]])"
  using assms by (simp add: cell_set_def py_get_in_range py_set_in_range bindE_simps)

lemma wf_row_length:
  "CountMinSketch_wf s \<Longrightarrow> row < nat (depth s) \<Longrightarrow> length (table s ! row) = nat (width s)"
  by (simp add: CountMinSketch_wf_def)

lemma wf_column_in_row:
  assumes "CountMinSketch_wf s" "row < nat (depth s)"
  shows "column sha256 (width s) item row < length (table s ! row)"
proof -
  have "0 < width s" using assms(1) by (simp add: CountMinSketch_wf_def)
  then have "int (column sha256 (width s) item row) < width s" by (rule column_range)
  then show ?thesis using wf_row_length [OF assms] by simp
qed

lemma update_row_wf:
  assumes "CountMinSketch_wf s" "row < nat (depth s)"
  shows "update_row sha256 item count (int row) s =
     Inr (s\<lparr>table := (table s)[row := (table s ! row)
        [column sha256 (width s) item row :=
           table s ! row ! column sha256 (width s) item row + count]]\<rparr>)"
proof -
  have pos: "0 < width s" and len: "row < length (table s)"
    using assms by (simp_all add: CountMinSketch_wf_def)
  show ?thesis
    using cell_get_in_range [OF len wf_column_in_row [OF assms]]
      cell_set_in_range [OF len wf_column_in_row [OF assms]]
    by (simp add: update_row_def CountMinSketch_hash_wf [OF pos] bindE_simps)
qed

lemma update_row_keeps_wf:
  assumes "CountMinSketch_wf s"
  shows "CountMinSketch_wf (s\<lparr>table := (table s)[row := (table s ! row)[col := v]]\<rparr>)"
proof (cases "row < length (table s)")
  case True
  have "length r = nat (width s)"
    if "r \<in> set ((table s)[row := (table s ! row)[col := v]])" for r
  proof -
    have "r \<in> insert ((table s ! row)[col := v]) (set (table s))"
      using that set_update_subset_insert by fast
    moreover have "length (table s ! row) = nat (width s)"
      using assms True by (simp add: CountMinSketch_wf_def)
    ultimately show ?thesis using assms by (auto simp: CountMinSketch_wf_def)
  qed
  then show ?thesis using assms by (simp add: CountMinSketch_wf_def)
next
  case False
  then have "(table s)[row := (table s ! row)[col := v]] = table s"
    by (intro list_update_beyond) simp
  then show ?thesis using assms by (simp add: CountMinSketch_wf_def)
qed

lemma updated_upto_0: "CountMinSketch_wf s \<Longrightarrow> updated_upto sha256 item count 0 s s"
  by (simp add: updated_upto_def)

lemma updated_upto_step:
  assumes "updated_upto sha256 item count k s t" "k < nat (depth s)"
  shows "\<exists>u. update_row sha256 item count (int k) t = Inr u \<and>
     updated_upto sha256 item count (Suc k) s u"
proof -
  let ?c = "column sha256 (width s) item k"
  let ?u = "t\<lparr>table := (table t)[k := (table t ! k)[?c := table t ! k ! ?c + count]]\<rparr>"
  have wt: "CountMinSketch_wf t" and eq: "width t = width s" "depth t = depth s"
      "total_count t = total_count s"
    and cells: "\<And>row col. row < nat (depth s) \<Longrightarrow> col < nat (width s) \<Longrightarrow>
        table t ! row ! col = table s ! row ! col +
            (if row < k \<and> col = column sha256 (width s) item row then count else 0)"
    using assms(1) by (simp_all add: updated_upto_def)
  have k: "k < nat (depth t)" using assms(2) eq by simp
  have step: "update_row sha256 item count (int k) t = Inr ?u"
    using update_row_wf [OF wt k] eq by simp
  have wu: "CountMinSketch_wf ?u" by (rule update_row_keeps_wf [OF wt])
  have lt: "k < length (table t)" using wt k by (simp add: CountMinSketch_wf_def)
  have c: "?c < length (table t ! k)" using wf_column_in_row [OF wt k] eq by simp
  have "table ?u ! row ! col = table s ! row ! col +
            (if row < Suc k \<and> col = column sha256 (width s) item row then count else 0)"
    if "row < nat (depth s)" "col < nat (width s)" for row col
  proof (cases "row = k")
    case True
    have "col < length (table t ! k)" using wf_row_length [OF wt k] eq that(2) by simp
    then show ?thesis
      using True lt c cells [OF that] by (simp add: nth_list_update)
  next
    case False
    then show ?thesis
      using lt cells [OF that] by (simp add: nth_list_update less_Suc_eq)
  qed
  then have "updated_upto sha256 item count (Suc k) s ?u"
    using wu eq by (simp add: updated_upto_def)
  then show ?thesis using step by blast
qed

lemma update_loop:
  assumes "CountMinSketch_wf s" "k \<le> nat (depth s)"
  shows "\<exists>t. for_each (update_row sha256 item count) (map int [0..<k]) s = Inr t \<and>
     updated_upto sha256 item count k s t"
  using assms(2)
proof (induction k)
  case 0
  then show ?case using updated_upto_0 [OF assms(1)] by simp
next
  case (Suc k)
  then obtain t where t: "for_each (update_row sha256 item count) (map int [0..<k]) s = Inr t"
      "updated_upto sha256 item count k s t"
    by auto
  obtain u where u: "update_row sha256 item count (int k) t = Inr u"
      "updated_upto sha256 item count (Suc k) s u"
    using updated_upto_step [OF t(2)] Suc.prems by auto
  show ?case
    using t(1) u by (simp add: for_each_append)
qed

lemma CountMinSketch_update_wf:
  assumes "CountMinSketch_wf s"
  shows "\<exists>t. CountMinSketch_update sha256 s item count = Inr t \<and>
     CountMinSketch_wf t \<and> width t = width s \<and> depth t = depth s \<and>
     total_count t = total_count s + count \<and>
     (\<forall>row < nat (depth s). \<forall>col < nat (width s).
        table t ! row ! col =
          table s ! row ! col +
            (if col = column sha256 (width s) item row then count else 0))"
proof -
  obtain t where t: "for_each (update_row sha256 item count) (py_range (depth s)) s = Inr t"
      "updated_upto sha256 item count (nat (depth s)) s t"
    using update_loop [OF assms order_refl, of sha256 item count]
    unfolding py_range_def by blast
  let ?t = "t\<lparr>total_count := total_count t + count\<rparr>"
  have "CountMinSketch_update sha256 s item count = Inr ?t"
    by (simp add: CountMinSketch_update_def t(1) bindE_simps)
  moreover have "CountMinSketch_wf ?t"
    using t(2) by (simp add: updated_upto_def CountMinSketch_wf_def)
  ultimately show ?thesis
    using t(2) by (simp add: updated_upto_def)
qed

lemma query_row_wf:
  assumes "CountMinSketch_wf s" "row < nat (depth s)"
  shows "query_row sha256 s item (int row) m =
     Inr (Some (case m of None \<Rightarrow> table s ! row ! column sha256 (width s) item row
                | Some v \<Rightarrow> min v (table s ! row ! column sha256 (width s) item row)))"
proof -
  have pos: "0 < width s" and len: "row < length (table s)"
    using assms by (simp_all add: CountMinSketch_wf_def)
  show ?thesis
    using cell_get_in_range [OF len wf_column_in_row [OF assms]]
    by (simp add: query_row_def CountMinSketch_hash_wf [OF pos] bindE_simps)
qed

lemma query_loop_lower:
  assumes "CountMinSketch_wf s"
    and "\<forall>row < nat (depth s). L \<le> table s ! row ! column sha256 (width s) item row"
    and "\<forall>row \<in> set rows. row < nat (depth s)"
    and "case m of None \<Rightarrow> True | Some v \<Rightarrow> L \<le> v"
  shows "\<exists>m'. for_each (query_row sha256 s item) (map int rows) m = Inr m' \<and>
     (case m' of None \<Rightarrow> rows = [] \<and> m = None | Some v \<Rightarrow> L \<le> v)"
  using assms(3,4)
proof (induction rows arbitrary: m)
  case Nil
  then show ?case by (simp split: option.splits)
next
  case (Cons row rows)
  let ?c = "table s ! row ! column sha256 (width s) item row"
  let ?m = "Some (case m of None \<Rightarrow> ?c | Some v \<Rightarrow> min v ?c)"
  have r: "row < nat (depth s)" using Cons.prems(1) by simp
  have c: "L \<le> ?c" using assms(2) r by simp
  have m: "case ?m of None \<Rightarrow> True | Some v \<Rightarrow> L \<le> v"
    using c Cons.prems(2) by (simp split: option.splits)
  have rest: "\<forall>row \<in> set rows. row < nat (depth s)" using Cons.prems(1) by simp
  obtain m' where m': "for_each (query_row sha256 s item) (map int rows) ?m = Inr m'"
      "case m' of None \<Rightarrow> rows = [] \<and> ?m = None | Some v \<Rightarrow> L \<le> v"
    using Cons.IH [OF rest m] by blast
  then obtain v where v: "m' = Some v" "L \<le> v"
    by (cases m') simp_all
  have "for_each (query_row sha256 s item) (map int (row # rows)) m = Inr m'"
    using m'(1) query_row_wf [OF assms(1) r, of sha256 item m] by simp
  then show ?case using v by simp
qed

lemma CountMinSketch_query_lower:
  assumes "CountMinSketch_wf s" "0 < depth s"
    and "\<forall>row < nat (depth s). L \<le> table s ! row ! column sha256 (width s) item row"
  shows "\<exists>v. CountMinSketch_query sha256 s item = Inr v \<and> L \<le> v"
proof -
  have ne: "[0..<nat (depth s)] \<noteq> []" using assms(2) by simp
  obtain m' where m': "for_each (query_row sha256 s item) (map int [0..<nat (depth s)]) None = Inr m'"
      "case m' of None \<Rightarrow> [0..<nat (depth s)] = [] \<and> (None :: int option) = None
        | Some v \<Rightarrow> L \<le> v"
    using query_loop_lower [OF assms(1,3), of "[0..<nat (depth s)]" None] by auto
  then obtain v where "m' = Some v" "L \<le> v"
    using ne by (cases m') auto
  then show ?thesis
    using m'(1) by (simp add: CountMinSketch_query_def py_range_def bindE_simps)
qed

lemma true_frequency_Cons:
  "true_frequency x (u # stream) = (if fst u = x then snd u else 0) + true_frequency x stream"
  by (simp add: true_frequency_def)

lemma CountMinSketch_update_all_lower:
  assumes "CountMinSketch_wf s" "\<forall>u \<in> set stream. 0 \<le> snd u"
  shows "\<exists>t. CountMinSketch_update_all sha256 stream s = Inr t \<and>
     CountMinSketch_wf t \<and> width t = width s \<and> depth t = depth s \<and>
     (\<forall>row < nat (depth s).
        table s ! row ! column sha256 (width s) x row + true_frequency x stream
          \<le> table t ! row ! column sha256 (width s) x row)"
  using assms
proof (induction stream arbitrary: s)
  case Nil
  then show ?case by (simp add: CountMinSketch_update_all_def true_frequency_def)
next
  case (Cons u stream)
  have pos: "0 < width s" using Cons.prems(1) by (simp add: CountMinSketch_wf_def)
  obtain s1 where s1: "CountMinSketch_update sha256 s (fst u) (snd u) = Inr s1"
      "CountMinSketch_wf s1" "width s1 = width s" "depth s1 = depth s"
      "\<forall>row < nat (depth s). \<forall>col < nat (width s).
        table s1 ! row ! col =
          table s ! row ! col +
            (if col = column sha256 (width s) (fst u) row then snd u else 0)"
    using CountMinSketch_update_wf [OF Cons.prems(1), of sha256 "fst u" "snd u"] by blast
  have nonneg: "0 \<le> snd u" and rest: "\<forall>u \<in> set stream. 0 \<le> snd u"
    using Cons.prems(2) by simp_all
  obtain t where t: "CountMinSketch_update_all sha256 stream s1 = Inr t"
      "CountMinSketch_wf t" "width t = width s1" "depth t = depth s1"
      "\<forall>row < nat (depth s1).
        table s1 ! row ! column sha256 (width s1) x row + true_frequency x stream
          \<le> table t ! row ! column sha256 (width s1) x row"
    using Cons.IH [OF s1(2) rest] by blast
  have "table s ! row ! column sha256 (width s) x row + true_frequency x (u # stream)
          \<le> table t ! row ! column sha256 (width s) x row"
    if row: "row < nat (depth s)" for row
  proof -
    let ?c = "column sha256 (width s) x row"
    have c: "?c < nat (width s)" using column_range [OF pos, of sha256 x row] by simp
    have "table s1 ! row ! ?c =
        table s ! row ! ?c + (if ?c = column sha256 (width s) (fst u) row then snd u else 0)"
      using s1(5) row c by blast
    then have "table s ! row ! ?c + (if fst u = x then snd u else 0) \<le> table s1 ! row ! ?c"
      using nonneg by auto
    moreover have "table s1 ! row ! ?c + true_frequency x stream \<le> table t ! row ! ?c"
      using t(5) row s1(3,4) by simp
    ultimately show ?thesis by (simp add: true_frequency_Cons)
  qed
  moreover have "CountMinSketch_update_all sha256 (u # stream) s = Inr t"
    using s1(1) t(1) by (simp add: CountMinSketch_update_all_def)
  ultimately show ?case using t(2,3,4) s1(3,4) by simp
qed

lemma CountMinSketch_init_wf:
  assumes "0 < w"
  shows "CountMinSketch_wf (CountMinSketch_init w d)"
    and "width (CountMinSketch_init w d) = w" and "depth (CountMinSketch_init w d) = d"
    and "row < nat d \<Longrightarrow> col < nat w \<Longrightarrow> table (CountMinSketch_init w d) ! row ! col = 0"
  using assms by (simp_all add: CountMinSketch_init_def CountMinSketch_wf_def)

text \<open>
  Claim C2. On a sketch of positive width and depth, after any stream of updates with
  non-negative counts (every update returns), the query of an item returns a value that
  is at least the sum of the counts the stream passed for that item.
\<close>

theorem CountMinSketch_never_undercounts:
  assumes "0 < w" and "0 < d" and "\<forall>u \<in> set stream. 0 \<le> snd u"
  shows "\<exists>s v. CountMinSketch_update_all sha256 stream (CountMinSketch_init w d) = Inr s \<and>
     CountMinSketch_query sha256 s x = Inr v \<and> true_frequency x stream \<le> v"
proof -
  let ?s0 = "CountMinSketch_init w d"
  note init = CountMinSketch_init_wf [OF assms(1), where d = d]
  obtain s where s: "CountMinSketch_update_all sha256 stream ?s0 = Inr s"
      "CountMinSketch_wf s" "width s = width ?s0" "depth s = depth ?s0"
      "\<forall>row < nat (depth ?s0).
        table ?s0 ! row ! column sha256 (width ?s0) x row + true_frequency x stream
          \<le> table s ! row ! column sha256 (width ?s0) x row"
    using CountMinSketch_update_all_lower [OF init(1) assms(3)] by blast
  have "true_frequency x stream \<le> table s ! row ! column sha256 (width s) x row"
    if "row < nat (depth s)" for row
  proof -
    have "column sha256 w x row < nat w" using column_range [OF assms(1), of sha256 x row] by simp
    then have "table ?s0 ! row ! column sha256 w x row = 0"
      using that s(4) init(3,4) by simp
    then show ?thesis using s(5) that s(3,4) init(2,3) by auto
  qed
  then obtain v where "CountMinSketch_query sha256 s x = Inr v" "true_frequency x stream \<le> v"
    using CountMinSketch_query_lower [OF s(2), of "true_frequency x stream" sha256 x]
      assms(2) s(4) init(3) by auto
  then show ?thesis using s(1) by blast
qed

theorem CountMinSketch_never_undercounts_witness:
  "\<exists>s v. CountMinSketch_update_all sample_sha256 [(''a'', 2), (''bc'', 3), (''a'', 1)]
            (CountMinSketch_init 4 2) = Inr s \<and>
     CountMinSketch_query sample_sha256 s ''a'' = Inr v \<and>
     true_frequency ''a'' [(''a'', 2), (''bc'', 3), (''a'', 1)] \<le> v"
  using CountMinSketch_never_undercounts
    [of 4 2 "[(''a'', 2), (''bc'', 3), (''a'', 1)]" sample_sha256 "''a''"]
  by simp

section \<open>HyperLogLog: ranks, registers and the shape of the structure\<close>

lemma count_leading_zeros_loop_bounds:
  "zeros + 1 \<le> count_leading_zeros_loop v positions zeros \<and>
   count_leading_zeros_loop v positions zeros \<le> zeros + 1 + int (length positions)"
proof (induction positions arbitrary: zeros)
  case Nil
  then show ?case by simp
next
  case (Cons i positions)
  show ?case using Cons.IH [of "zeros + 1"] by simp
qed

lemma count_leading_zeros_bounds:
  assumes "0 \<le> max_bits"
  shows "1 \<le> count_leading_zeros v max_bits \<and> count_leading_zeros v max_bits \<le> max_bits + 1"
proof (cases "v = 0")
  case True
  then show ?thesis using assms by (simp add: count_leading_zeros_def)
next
  case False
  have "int (length (py_range_down (max_bits - 1))) = max_bits"
    using assms by (simp add: py_range_down_def)
  then show ?thesis
    using False count_leading_zeros_loop_bounds [of 0 v "py_range_down (max_bits - 1)"]
    by (simp add: count_leading_zeros_def)
qed

lemma rank_of_bounds:
  assumes "p \<le> 64"
  shows "1 \<le> rank_of sha256 p item \<and> rank_of sha256 p item \<le> 64 - p + 1"
  using count_leading_zeros_bounds [of "64 - p"] assms by (simp add: rank_of_def)

lemma int_div_less_bound:
  fixes a b c :: int
  assumes "0 < c" "a < b * c"
  shows "a div c < b"
proof (rule ccontr)
  assume "\<not> a div c < b"
  then have "b * c \<le> a div c * c" using assms(1) by (simp add: mult_right_mono)
  moreover have "a div c * c + a mod c = a" by simp
  moreover have "0 \<le> a mod c" using assms(1) by simp
  ultimately show False using assms(2) by linarith
qed

lemma register_of_range:
  assumes "0 \<le> p" "p \<le> 64"
  shows "register_of sha256 p item < 2 ^ nat p"
proof -
  let ?h = "uint (sha256 item)"
  have "?h < 2 ^ 64" using uint_bounded [of "sha256 item"] by simp
  also have "(2::int) ^ 64 = 2 ^ nat (64 - p) * 2 ^ nat p"
    using assms by (simp flip: power_add add: nat_diff_distrib)
  finally have "?h < 2 ^ nat p * 2 ^ nat (64 - p)" by (simp add: mult.commute)
  then have "?h div 2 ^ nat (64 - p) < 2 ^ nat p"
    by (intro int_div_less_bound) simp_all
  moreover have "0 \<le> ?h div 2 ^ nat (64 - p)" by (simp add: div_int_pos_iff)
  ultimately have "nat (?h div 2 ^ nat (64 - p)) < nat (2 ^ nat p)" by linarith
  then show ?thesis by (simp add: register_of_def drop_bit_eq_div)
qed

lemma HyperLogLog_init_valid:
  assumes "4 \<le> p" "p \<le> 18"
  shows "HyperLogLog_init p =
     Inr \<lparr>precision = p, num_registers = 2 ^ nat p, registers = replicate (2 ^ nat p) 0\<rparr>"
  using assms by (simp add: HyperLogLog_init_def py_lshift_def bindE_simps)

lemma HyperLogLog_init_invalid:
  "\<not> (4 \<le> p \<and> p \<le> 18) \<Longrightarrow>
   HyperLogLog_init p = Inl (ValueError ''Precision must be between 4 and 18'')"
  by (simp add: HyperLogLog_init_def)

lemma HyperLogLog_init_wf: "HyperLogLog_init p = Inr s \<Longrightarrow> HyperLogLog_wf s \<and> precision s = p"
  by (cases "4 \<le> p \<and> p \<le> 18")
    (auto simp: HyperLogLog_init_valid HyperLogLog_init_invalid HyperLogLog_wf_def)

lemma HyperLogLog_add_wf:
  assumes "HyperLogLog_wf s"
  shows "HyperLogLog_add sha256 s item =
     Inr (s\<lparr>registers := (registers s)[register_of sha256 (precision s) item :=
        max (registers s ! register_of sha256 (precision s) item)
            (rank_of sha256 (precision s) item)]\<rparr>)"
proof -
  let ?p = "precision s"
  have p: "0 \<le> ?p" "?p \<le> 64" using assms by (simp_all add: HyperLogLog_wf_def)
  have len: "length (registers s) = 2 ^ nat ?p" using assms by (simp add: HyperLogLog_wf_def)
  let ?idx = "drop_bit (nat (64 - ?p)) (uint (sha256 item))"
  have nonneg: "0 \<le> ?idx" by simp
  have "nat ?idx < 2 ^ nat ?p"
    using register_of_range [OF p, of sha256 item] by (simp add: register_of_def)
  then have rng: "?idx < int (length (registers s))" using len nonneg by simp
  show ?thesis
    using p nonneg rng
    by (simp add: HyperLogLog_add_def HyperLogLog_hash_def py_rshift_def py_lshift_def
        bindE_simps Let_def py_get_in_range py_set_in_range register_of_def rank_of_def)
qed

lemma HyperLogLog_add_keeps_wf:
  assumes "HyperLogLog_wf s" "HyperLogLog_add sha256 s item = Inr t"
  shows "HyperLogLog_wf t \<and> precision t = precision s"
  using assms(2) assms(1) unfolding HyperLogLog_add_wf [OF assms(1)]
  by (auto simp: HyperLogLog_wf_def)

section \<open>HyperLogLog: \<open>merge\<close> is the element-wise maximum\<close>

lemma merge_register_in_range:
  assumes "i < length (registers a)" "i < length (registers b)" "i < length (registers m)"
  shows "merge_register a b (int i) m =
     Inr (m\<lparr>registers := (registers m)[i := max (registers a ! i) (registers b ! i)]\<rparr>)"
  using assms by (simp add: merge_register_def py_get_in_range py_set_in_range bindE_simps)

lemma merge_loop:
  assumes "length (registers a) = n" "length (registers b) = n" "length (registers m) = n"
    and "k \<le> n"
  shows "for_each (merge_register a b) (map int [0..<k]) m =
     Inr (m\<lparr>registers := map (\<lambda>j. if j < k then max (registers a ! j) (registers b ! j)
                                  else registers m ! j) [0..<n]\<rparr>)"
  using assms(4)
proof (induction k)
  case 0
  have "map ((!) (registers m)) [0..<n] = registers m"
    unfolding assms(3) [symmetric] by (rule map_nth)
  then show ?case by simp
next
  case (Suc k)
  let ?r = "\<lambda>k. map (\<lambda>j. if j < k then max (registers a ! j) (registers b ! j)
                                  else registers m ! j) [0..<n]"
  have k: "k < n" using Suc.prems by simp
  have prev: "for_each (merge_register a b) (map int [0..<k]) m = Inr (m\<lparr>registers := ?r k\<rparr>)"
    using Suc by simp
  have upd: "(?r k)[k := max (registers a ! k) (registers b ! k)] = ?r (Suc k)"
    by (rule nth_equalityI) (auto simp: nth_list_update less_Suc_eq)
  have "merge_register a b (int k) (m\<lparr>registers := ?r k\<rparr>) = Inr (m\<lparr>registers := ?r (Suc k)\<rparr>)"
    using merge_register_in_range [of k a b "m\<lparr>registers := ?r k\<rparr>"] k assms(1,2) upd
    by simp
  then show ?case using prev by (simp add: for_each_append)
qed

lemma map_index_zip:
  assumes "length xs = n" "length ys = n"
  shows "map (\<lambda>j. f (xs ! j) (ys ! j)) [0..<n] = map2 f xs ys"
  using assms by (intro nth_equalityI) simp_all

lemma HyperLogLog_merge_wf:
  assumes "HyperLogLog_wf a" "HyperLogLog_wf b" "precision a = precision b"
  shows "HyperLogLog_merge a b =
     Inr \<lparr>precision = precision a, num_registers = 2 ^ nat (precision a),
          registers = map2 max (registers a) (registers b)\<rparr>"
proof -
  let ?p = "precision a"
  let ?n = "2 ^ nat ?p :: nat"
  let ?m = "\<lparr>precision = ?p, num_registers = 2 ^ nat ?p, registers = replicate ?n 0\<rparr>"
  have p: "4 \<le> ?p" "?p \<le> 18" using assms(1) by (simp_all add: HyperLogLog_wf_def)
  have la: "length (registers a) = ?n" and lb: "length (registers b) = ?n"
    using assms by (simp_all add: HyperLogLog_wf_def)
  have lm: "length (registers ?m) = ?n" by simp
  have rng: "py_range (num_registers a) = map int [0..<?n]"
    using assms(1) by (simp add: py_range_def HyperLogLog_wf_def nat_power_eq)
  have "for_each (merge_register a b) (map int [0..<?n]) ?m =
      Inr (?m\<lparr>registers := map (\<lambda>j. if j < ?n then max (registers a ! j) (registers b ! j)
                                  else registers ?m ! j) [0..<?n]\<rparr>)"
    by (rule merge_loop [OF la lb lm order_refl])
  moreover have "map (\<lambda>j. if j < ?n then max (registers a ! j) (registers b ! j)
                                  else registers ?m ! j) [0..<?n] =
      map (\<lambda>j. max (registers a ! j) (registers b ! j)) [0..<?n]"
    by (rule map_cong) simp_all
  ultimately have "for_each (merge_register a b) (map int [0..<?n]) ?m =
      Inr (?m\<lparr>registers := map2 max (registers a) (registers b)\<rparr>)"
    using map_index_zip [OF la lb, of max] by simp
  then show ?thesis
    using assms(3) [symmetric]
    by (simp add: HyperLogLog_merge_def HyperLogLog_init_valid [OF p] bindE_simps rng)
qed

lemma HyperLogLog_merge_mismatch:
  "precision a \<noteq> precision b \<Longrightarrow>
   HyperLogLog_merge a b = Inl (ValueError ''HyperLogLogs must have the same precision'')"
  by (simp add: HyperLogLog_merge_def)

lemma HyperLogLog_merge_keeps_wf:
  assumes "HyperLogLog_wf a" "HyperLogLog_wf b" "HyperLogLog_merge a b = Inr m"
  shows "HyperLogLog_wf m \<and> precision m = precision a \<and> precision a = precision b \<and>
     registers m = map2 max (registers a) (registers b)"
proof (cases "precision a = precision b")
  case True
  then show ?thesis
    using assms HyperLogLog_merge_wf [OF assms(1,2) True] by (auto simp: HyperLogLog_wf_def)
next
  case False
  then show ?thesis using assms(3) by (simp add: HyperLogLog_merge_mismatch)
qed

lemma HyperLogLog_reachable_wf: "HyperLogLog_reachable sha256 s \<Longrightarrow> HyperLogLog_wf s"
proof (induction rule: HyperLogLog_reachable.induct)
  case (created p s)
  then show ?case by (simp add: HyperLogLog_init_wf)
next
  case (added s item t)
  then show ?case using HyperLogLog_add_keeps_wf by blast
next
  case (merged a b m)
  then show ?case using HyperLogLog_merge_keeps_wf by blast
qed

section \<open>HyperLogLog: the range of a register\<close>

text \<open>
  Claim C9. In every HyperLogLog that a caller builds with the constructor, adds and
  merges, every register is in \<open>[0, 64 - p + 1]\<close>, where \<open>p\<close> is its precision.
\<close>

theorem HyperLogLog_register_range:
  assumes "HyperLogLog_reachable sha256 s"
  shows "set (registers s) \<subseteq> {0 .. 64 - precision s + 1}"
  using assms
proof (induction rule: HyperLogLog_reachable.induct)
  case (created p s)
  have p: "4 \<le> p \<and> p \<le> 18"
    using created by (cases "4 \<le> p \<and> p \<le> 18") (simp_all add: HyperLogLog_init_invalid)
  then have "s = \<lparr>precision = p, num_registers = 2 ^ nat p, registers = replicate (2 ^ nat p) 0\<rparr>"
    using created HyperLogLog_init_valid [of p] by simp
  then show ?case using p by auto
next
  case (added s item t)
  let ?p = "precision s"
  let ?i = "register_of sha256 ?p item"
  let ?v = "max (registers s ! ?i) (rank_of sha256 ?p item)"
  have wf: "HyperLogLog_wf s" by (rule HyperLogLog_reachable_wf [OF added(1)])
  then have p: "?p \<le> 64" by (simp add: HyperLogLog_wf_def)
  have t: "t = s\<lparr>registers := (registers s)[?i := ?v]\<rparr>"
    using added(2) HyperLogLog_add_wf [OF wf, of sha256 item] by simp
  have i: "?i < length (registers s)"
    using wf register_of_range [of ?p sha256 item] by (simp add: HyperLogLog_wf_def)
  then have old: "registers s ! ?i \<in> {0 .. 64 - ?p + 1}"
    using added.IH nth_mem [of ?i "registers s"] by blast
  have "?v \<in> {0 .. 64 - ?p + 1}"
    using old rank_of_bounds [OF p, of sha256 item] by auto
  moreover have "set ((registers s)[?i := ?v]) \<subseteq> insert ?v (set (registers s))"
    by (rule set_update_subset_insert)
  ultimately show ?case using added.IH t by auto
next
  case (merged a b m)
  have wa: "HyperLogLog_wf a" and wb: "HyperLogLog_wf b"
    using merged(1,2) by (simp_all add: HyperLogLog_reachable_wf)
  note m = HyperLogLog_merge_keeps_wf [OF wa wb merged(3)]
  have "r \<in> {0 .. 64 - precision m + 1}" if "r \<in> set (registers m)" for r
  proof -
    have "r \<in> set (map2 max (registers a) (registers b))" using that m by simp
    then obtain x y where z: "(x, y) \<in> set (zip (registers a) (registers b))" and r: "r = max x y"
      by auto
    have xy: "r = max x y" "x \<in> set (registers a)" "y \<in> set (registers b)"
      using r set_zip_leftD [OF z] set_zip_rightD [OF z] by simp_all
    then have "x \<in> {0 .. 64 - precision a + 1}" "y \<in> {0 .. 64 - precision b + 1}"
      using merged.IH by auto
    then show ?thesis using xy(1) m by auto
  qed
  then show ?case by blast
qed

theorem HyperLogLog_register_range_witness:
  "HyperLogLog_reachable sample_sha256
     \<lparr>precision = 4, num_registers = 16,
       registers = [54, 0, 0, 0, 0, 0, 0, 0, 0, 0, 0, 0, 0, 0, 0, 0]\<rparr> \<and>
   set (registers \<lparr>precision = 4, num_registers = 16,
       registers = [54, 0, 0, 0, 0, 0, 0, 0, 0, 0, 0, 0, 0, 0, 0, 0]\<rparr>)
     \<subseteq> {0 .. 64 - precision \<lparr>precision = 4, num_registers = 16,
       registers = [54, 0, 0, 0, 0, 0, 0, 0, 0, 0, 0, 0, 0, 0, 0, 0]\<rparr> + 1}"
proof -
  let ?s0 = "\<lparr>precision = 4, num_registers = 16,
       registers = [0, 0, 0, 0, 0, 0, 0, 0, 0, 0, 0, 0, 0, 0, 0, 0]\<rparr>"
  let ?s1 = "\<lparr>precision = 4, num_registers = 16,
       registers = [54, 0, 0, 0, 0, 0, 0, 0, 0, 0, 0, 0, 0, 0, 0, 0]\<rparr>"
  have "HyperLogLog_init 4 = Inr ?s0" by code_simp
  then have r0: "HyperLogLog_reachable sample_sha256 ?s0" by (rule created)
  have "HyperLogLog_add sample_sha256 ?s0 ''a'' = Inr ?s1" by code_simp
  with r0 have r1: "HyperLogLog_reachable sample_sha256 ?s1" by (rule added)
  show ?thesis using r1 HyperLogLog_register_range [OF r1] by blast
qed

section \<open>HyperLogLog: \<open>merge\<close> against the concatenated stream\<close>

lemma length_observed_registers:
  "length (observed_registers sha256 p stream rs) = length rs"
  unfolding observed_registers_def by (induction stream arbitrary: rs) simp_all

lemma HyperLogLog_add_all_wf:
  assumes "HyperLogLog_wf s"
  shows "HyperLogLog_add_all sha256 stream s =
     Inr (s\<lparr>registers := observed_registers sha256 (precision s) stream (registers s)\<rparr>)"
  using assms
proof (induction stream arbitrary: s)
  case Nil
  then show ?case by (simp add: HyperLogLog_add_all_def observed_registers_def)
next
  case (Cons item stream)
  let ?i = "register_of sha256 (precision s) item"
  let ?t = "s\<lparr>registers := (registers s)[?i :=
        max (registers s ! ?i) (rank_of sha256 (precision s) item)]\<rparr>"
  have step: "HyperLogLog_add sha256 s item = Inr ?t" by (rule HyperLogLog_add_wf [OF Cons.prems])
  have wt: "HyperLogLog_wf ?t" using Cons.prems by (simp add: HyperLogLog_wf_def)
  have "HyperLogLog_add_all sha256 stream ?t =
      Inr (?t\<lparr>registers := observed_registers sha256 (precision ?t) stream (registers ?t)\<rparr>)"
    by (rule Cons.IH [OF wt])
  then show ?case
    using step by (simp add: HyperLogLog_add_all_def observed_registers_def)
qed

lemma nth_observed_registers:
  assumes "j < length rs"
  shows "observed_registers sha256 p stream rs ! j = observed_rank sha256 p j stream (rs ! j)"
  using assms
proof (induction stream arbitrary: rs)
  case Nil
  then show ?case by (simp add: observed_registers_def observed_rank_def)
next
  case (Cons item stream)
  let ?i = "register_of sha256 p item"
  let ?rs = "rs[?i := max (rs ! ?i) (rank_of sha256 p item)]"
  have "j < length ?rs" using Cons.prems by simp
  then have "observed_registers sha256 p stream ?rs ! j =
      observed_rank sha256 p j stream (?rs ! j)"
    by (rule Cons.IH)
  moreover have "?rs ! j = (if ?i = j then max (rs ! j) (rank_of sha256 p item) else rs ! j)"
    using Cons.prems by (simp add: nth_list_update)
  ultimately show ?case
    by (simp add: observed_registers_def observed_rank_def)
qed

lemma observed_rank_nonneg: "0 \<le> m \<Longrightarrow> 0 \<le> observed_rank sha256 p j stream m"
  unfolding observed_rank_def by (induction stream arbitrary: m) simp_all

lemma observed_rank_max:
  assumes "0 \<le> m" "p \<le> 64"
  shows "observed_rank sha256 p j stream m = max m (observed_rank sha256 p j stream 0)"
  using assms(1)
proof (induction stream arbitrary: m)
  case Nil
  then show ?case by (simp add: observed_rank_def)
next
  case (Cons item stream)
  let ?rho = "rank_of sha256 p item"
  have rho: "0 \<le> ?rho" using rank_of_bounds [OF assms(2), of sha256 item] by simp
  show ?case
  proof (cases "register_of sha256 p item = j")
    case True
    have a: "observed_rank sha256 p j (item # stream) m = observed_rank sha256 p j stream (max m ?rho)"
      and b: "observed_rank sha256 p j (item # stream) 0 = observed_rank sha256 p j stream ?rho"
      using True rho by (simp_all add: observed_rank_def)
    have c: "observed_rank sha256 p j stream (max m ?rho) =
        max (max m ?rho) (observed_rank sha256 p j stream 0)"
      using Cons.IH [of "max m ?rho"] Cons.prems by simp
    have d: "observed_rank sha256 p j stream ?rho =
        max ?rho (observed_rank sha256 p j stream 0)"
      using Cons.IH [of ?rho] rho by simp
    have "observed_rank sha256 p j (item # stream) m =
        max (max m ?rho) (observed_rank sha256 p j stream 0)"
      unfolding a by (rule c)
    also have "\<dots> = max m (max ?rho (observed_rank sha256 p j stream 0))"
      by (rule max.assoc)
    also have "\<dots> = max m (observed_rank sha256 p j (item # stream) 0)"
      unfolding b d by (rule refl)
    finally show ?thesis .
  next
    case False
    then have "observed_rank sha256 p j (item # stream) m = observed_rank sha256 p j stream m"
      and "observed_rank sha256 p j (item # stream) 0 = observed_rank sha256 p j stream 0"
      by (simp_all add: observed_rank_def)
    then show ?thesis using Cons.IH [OF Cons.prems] by simp
  qed
qed

lemma observed_registers_append:
  "observed_registers sha256 p (xs @ ys) rs =
     observed_registers sha256 p ys (observed_registers sha256 p xs rs)"
  by (simp add: observed_registers_def)

lemma observed_registers_merge:
  assumes "p \<le> 64"
  shows "observed_registers sha256 p (xs @ ys) (replicate n 0) =
     map2 max (observed_registers sha256 p xs (replicate n 0))
              (observed_registers sha256 p ys (replicate n 0))"
proof (rule nth_equalityI)
  show "length (observed_registers sha256 p (xs @ ys) (replicate n 0)) =
      length (map2 max (observed_registers sha256 p xs (replicate n 0))
              (observed_registers sha256 p ys (replicate n 0)))"
    by (simp add: length_observed_registers)
next
  fix j assume "j < length (observed_registers sha256 p (xs @ ys) (replicate n 0))"
  then have j: "j < n" by (simp add: length_observed_registers)
  let ?a = "observed_registers sha256 p xs (replicate n 0)"
  have ja: "j < length ?a" using j by (simp add: length_observed_registers)
  have a: "?a ! j = observed_rank sha256 p j xs 0"
    using nth_observed_registers [of j "replicate n 0" sha256 p xs] j by simp
  then have nonneg: "0 \<le> ?a ! j" by (simp add: observed_rank_nonneg)
  have "observed_registers sha256 p (xs @ ys) (replicate n 0) ! j =
      observed_rank sha256 p j ys (?a ! j)"
    using nth_observed_registers [OF ja, of sha256 p ys] by (simp add: observed_registers_append)
  also have "\<dots> = max (?a ! j) (observed_rank sha256 p j ys 0)"
    by (rule observed_rank_max [OF nonneg assms])
  also have "observed_rank sha256 p j ys 0 = observed_registers sha256 p ys (replicate n 0) ! j"
    using nth_observed_registers [of j "replicate n 0" sha256 p ys] j by simp
  finally show "observed_registers sha256 p (xs @ ys) (replicate n 0) ! j =
      map2 max ?a (observed_registers sha256 p ys (replicate n 0)) ! j"
    using j by (simp add: length_observed_registers)
qed

lemma HyperLogLog_observe_valid:
  assumes "4 \<le> p" "p \<le> 18"
  shows "HyperLogLog_observe sha256 p stream =
     Inr \<lparr>precision = p, num_registers = 2 ^ nat p,
          registers = observed_registers sha256 p stream (replicate (2 ^ nat p) 0)\<rparr>"
proof -
  let ?s0 = "\<lparr>precision = p, num_registers = 2 ^ nat p, registers = replicate (2 ^ nat p) 0\<rparr>"
  have "HyperLogLog_wf ?s0" using assms by (simp add: HyperLogLog_wf_def)
  then show ?thesis
    using HyperLogLog_add_all_wf [of ?s0 sha256 stream]
    by (simp add: HyperLogLog_observe_def HyperLogLog_init_valid [OF assms] bindE_simps)
qed

lemma HyperLogLog_observe_invalid:
  "\<not> (4 \<le> p \<and> p \<le> 18) \<Longrightarrow>
   HyperLogLog_observe sha256 p stream = Inl (ValueError ''Precision must be between 4 and 18'')"
  by (simp add: HyperLogLog_observe_def HyperLogLog_init_invalid bindE_simps)

lemma HyperLogLog_merge_observed:
  assumes "HyperLogLog_observe sha256 p xs = Inr a" "HyperLogLog_observe sha256 p ys = Inr b"
  shows "HyperLogLog_merge a b = HyperLogLog_observe sha256 p (xs @ ys)"
proof -
  have p: "4 \<le> p" "p \<le> 18"
    using assms(1) by (cases "4 \<le> p \<and> p \<le> 18"; simp add: HyperLogLog_observe_invalid)+
  let ?n = "2 ^ nat p :: nat"
  have a: "a = \<lparr>precision = p, num_registers = 2 ^ nat p,
          registers = observed_registers sha256 p xs (replicate ?n 0)\<rparr>"
    and b: "b = \<lparr>precision = p, num_registers = 2 ^ nat p,
          registers = observed_registers sha256 p ys (replicate ?n 0)\<rparr>"
    using assms by (simp_all add: HyperLogLog_observe_valid [OF p])
  have wa: "HyperLogLog_wf a" and wb: "HyperLogLog_wf b"
    using p by (simp_all add: a b HyperLogLog_wf_def length_observed_registers)
  have eq: "precision a = precision b" by (simp add: a b)
  have "HyperLogLog_merge a b =
      Inr \<lparr>precision = p, num_registers = 2 ^ nat p,
          registers = map2 max (registers a) (registers b)\<rparr>"
    using HyperLogLog_merge_wf [OF wa wb eq] by (simp add: a)
  moreover have "map2 max (registers a) (registers b) =
      observed_registers sha256 p (xs @ ys) (replicate ?n 0)"
    using observed_registers_merge [of p sha256 xs ys ?n] p by (simp add: a b)
  ultimately show ?thesis by (simp add: HyperLogLog_observe_valid [OF p])
qed

text \<open>
  Claim C4. For two HyperLogLogs a caller has built, \<open>merge\<close> raises exactly when the
  precisions differ, with the \<open>ValueError\<close> of the mismatch. When they agree it returns a
  structure whose registers are the element-wise maximum of the operands' registers; and
  if the operands are what two streams leave behind, the result is the structure that
  the concatenation of the two streams leaves behind.
\<close>

theorem HyperLogLog_merge_lossless:
  assumes "HyperLogLog_reachable sha256 a" and "HyperLogLog_reachable sha256 b"
  shows "(isl (HyperLogLog_merge a b) \<longleftrightarrow> precision a \<noteq> precision b) \<and>
     (precision a \<noteq> precision b \<longrightarrow>
        HyperLogLog_merge a b = Inl (ValueError ''HyperLogLogs must have the same precision'')) \<and>
     (precision a = precision b \<longrightarrow>
        (\<exists>m. HyperLogLog_merge a b = Inr m \<and>
           registers m = map2 max (registers a) (registers b) \<and>
           (\<forall>xs ys. HyperLogLog_observe sha256 (precision a) xs = Inr a \<and>
                    HyperLogLog_observe sha256 (precision a) ys = Inr b \<longrightarrow>
                    HyperLogLog_observe sha256 (precision a) (xs @ ys) = Inr m)))"
proof -
  have wa: "HyperLogLog_wf a" and wb: "HyperLogLog_wf b"
    using assms by (simp_all add: HyperLogLog_reachable_wf)
  have differ: "HyperLogLog_merge a b = Inl (ValueError ''HyperLogLogs must have the same precision'')"
    if "precision a \<noteq> precision b"
    using that by (rule HyperLogLog_merge_mismatch)
  have agree: "\<exists>m. HyperLogLog_merge a b = Inr m \<and>
           registers m = map2 max (registers a) (registers b) \<and>
           (\<forall>xs ys. HyperLogLog_observe sha256 (precision a) xs = Inr a \<and>
                    HyperLogLog_observe sha256 (precision a) ys = Inr b \<longrightarrow>
                    HyperLogLog_observe sha256 (precision a) (xs @ ys) = Inr m)"
    if eq: "precision a = precision b"
  proof -
    let ?m = "\<lparr>precision = precision a, num_registers = 2 ^ nat (precision a),
          registers = map2 max (registers a) (registers b)\<rparr>"
    have m: "HyperLogLog_merge a b = Inr ?m" by (rule HyperLogLog_merge_wf [OF wa wb eq])
    have "HyperLogLog_observe sha256 (precision a) (xs @ ys) = Inr ?m"
      if "HyperLogLog_observe sha256 (precision a) xs = Inr a"
        "HyperLogLog_observe sha256 (precision a) ys = Inr b" for xs ys
      using HyperLogLog_merge_observed [OF that] m by simp
    then show ?thesis using m by simp
  qed
  show ?thesis
  proof (cases "precision a = precision b")
    case True
    obtain m where m: "HyperLogLog_merge a b = Inr m \<and>
           registers m = map2 max (registers a) (registers b) \<and>
           (\<forall>xs ys. HyperLogLog_observe sha256 (precision a) xs = Inr a \<and>
                    HyperLogLog_observe sha256 (precision a) ys = Inr b \<longrightarrow>
                    HyperLogLog_observe sha256 (precision a) (xs @ ys) = Inr m)"
      using agree [OF True] by blast
    then have "\<not> isl (HyperLogLog_merge a b)" by simp
    then show ?thesis using True m by blast
  next
    case False
    then have "isl (HyperLogLog_merge a b)" using differ by simp
    then show ?thesis using False differ by blast
  qed
qed

theorem HyperLogLog_merge_lossless_witness:
  "HyperLogLog_reachable sample_hash64
     \<lparr>precision = 4, num_registers = 16,
       registers = [0, 54, 0, 0, 0, 0, 0, 0, 0, 0, 0, 0, 0, 0, 0, 0]\<rparr> \<and>
   HyperLogLog_reachable sample_hash64
     \<lparr>precision = 4, num_registers = 16,
       registers = [0, 55, 53, 0, 0, 0, 0, 0, 0, 0, 0, 0, 0, 0, 0, 0]\<rparr> \<and>
   HyperLogLog_merge
     \<lparr>precision = 4, num_registers = 16,
       registers = [0, 54, 0, 0, 0, 0, 0, 0, 0, 0, 0, 0, 0, 0, 0, 0]\<rparr>
     \<lparr>precision = 4, num_registers = 16,
       registers = [0, 55, 53, 0, 0, 0, 0, 0, 0, 0, 0, 0, 0, 0, 0, 0]\<rparr> =
   Inr \<lparr>precision = 4, num_registers = 16,
       registers = [0, 55, 53, 0, 0, 0, 0, 0, 0, 0, 0, 0, 0, 0, 0, 0]\<rparr> \<and>
   HyperLogLog_observe sample_hash64 4 ([''a''] @ [''bc'', ''!'']) =
   Inr \<lparr>precision = 4, num_registers = 16,
       registers = [0, 55, 53, 0, 0, 0, 0, 0, 0, 0, 0, 0, 0, 0, 0, 0]\<rparr>"
proof -
  let ?s0 = "\<lparr>precision = 4, num_registers = 16,
       registers = [0, 0, 0, 0, 0, 0, 0, 0, 0, 0, 0, 0, 0, 0, 0, 0]\<rparr>"
  let ?a = "\<lparr>precision = 4, num_registers = 16,
       registers = [0, 54, 0, 0, 0, 0, 0, 0, 0, 0, 0, 0, 0, 0, 0, 0]\<rparr>"
  let ?b1 = "\<lparr>precision = 4, num_registers = 16,
       registers = [0, 0, 53, 0, 0, 0, 0, 0, 0, 0, 0, 0, 0, 0, 0, 0]\<rparr>"
  let ?b = "\<lparr>precision = 4, num_registers = 16,
       registers = [0, 55, 53, 0, 0, 0, 0, 0, 0, 0, 0, 0, 0, 0, 0, 0]\<rparr>"
  have "HyperLogLog_init 4 = Inr ?s0" by code_simp
  then have r0: "HyperLogLog_reachable sample_hash64 ?s0" by (rule created)
  have "HyperLogLog_add sample_hash64 ?s0 ''a'' = Inr ?a" by code_simp
  with r0 have ra: "HyperLogLog_reachable sample_hash64 ?a" by (rule added)
  have "HyperLogLog_add sample_hash64 ?s0 ''bc'' = Inr ?b1" by code_simp
  with r0 have rb1: "HyperLogLog_reachable sample_hash64 ?b1" by (rule added)
  have "HyperLogLog_add sample_hash64 ?b1 ''!'' = Inr ?b" by code_simp
  with rb1 have rb: "HyperLogLog_reachable sample_hash64 ?b" by (rule added)
  have oa: "HyperLogLog_observe sample_hash64 4 [''a''] = Inr ?a" by code_simp
  have ob: "HyperLogLog_observe sample_hash64 4 [''bc'', ''!''] = Inr ?b" by code_simp
  obtain m where m: "HyperLogLog_merge ?a ?b = Inr m"
      "registers m = map2 max (registers ?a) (registers ?b)"
      "\<forall>xs ys. HyperLogLog_observe sample_hash64 (precision ?a) xs = Inr ?a \<and>
                    HyperLogLog_observe sample_hash64 (precision ?a) ys = Inr ?b \<longrightarrow>
                    HyperLogLog_observe sample_hash64 (precision ?a) (xs @ ys) = Inr m"
    using HyperLogLog_merge_lossless [OF ra rb] by auto
  have "HyperLogLog_observe sample_hash64 4 ([''a''] @ [''bc'', ''!'']) = Inr m"
    using m(3) [rule_format, of "[''a'']" "[''bc'', ''!'']"] oa ob by simp
  moreover have "HyperLogLog_merge ?a ?b =
      Inr \<lparr>precision = 4, num_registers = 16,
       registers = [0, 55, 53, 0, 0, 0, 0, 0, 0, 0, 0, 0, 0, 0, 0, 0]\<rparr>"
    by code_simp
  ultimately show ?thesis using ra rb m(1) by simp
qed

section \<open>Count-Min Sketch: \<open>merge\<close> is the cell-wise sum\<close>

lemma merge_cell_in_range:
  assumes "r < length (table a)" "c < length (table a ! r)"
    and "r < length (table b)" "c < length (table b ! r)"
    and "r < length (table m)" "c < length (table m ! r)"
  shows "merge_cell a b (int r) (int c) m =
     Inr (m\<lparr>table := (table m)[r := (table m ! r)[c := table a ! r ! c + table b ! r ! c]]\<rparr>)"
  using assms by (simp add: merge_cell_def cell_get_in_range cell_set_in_range bindE_simps)

lemma merge_row_loop:
  assumes "r < length (table a)" "length (table a ! r) = n"
    and "r < length (table b)" "length (table b ! r) = n"
    and "r < length (table m)" "length (table m ! r) = n"
    and "k \<le> n"
  shows "for_each (merge_cell a b (int r)) (map int [0..<k]) m =
     Inr (m\<lparr>table := (table m)[r := map (\<lambda>j. if j < k then table a ! r ! j + table b ! r ! j
                                             else table m ! r ! j) [0..<n]]\<rparr>)"
  using assms(7)
proof (induction k)
  case 0
  have "map ((!) (table m ! r)) [0..<n] = table m ! r"
    unfolding assms(6) [symmetric] by (rule map_nth)
  then show ?case by simp
next
  case (Suc k)
  let ?row = "\<lambda>k. map (\<lambda>j. if j < k then table a ! r ! j + table b ! r ! j
                                             else table m ! r ! j) [0..<n]"
  let ?m = "\<lambda>k. m\<lparr>table := (table m)[r := ?row k]\<rparr>"
  have k: "k < n" using Suc.prems by simp
  have prev: "for_each (merge_cell a b (int r)) (map int [0..<k]) m = Inr (?m k)"
    using Suc by simp
  have upd: "(?row k)[k := table a ! r ! k + table b ! r ! k] = ?row (Suc k)"
    by (rule nth_equalityI) (auto simp: nth_list_update less_Suc_eq)
  have "merge_cell a b (int r) (int k) (?m k) =
      Inr ((?m k)\<lparr>table := (table (?m k))[r := (table (?m k) ! r)
          [k := table a ! r ! k + table b ! r ! k]]\<rparr>)"
    using assms(1-5) k by (intro merge_cell_in_range) simp_all
  also have "\<dots> = Inr (?m (Suc k))"
    using assms(5) upd by simp
  finally show ?case using prev by (simp add: for_each_append)
qed

lemma merge_row_shaped:
  assumes "r < length (table a)" "length (table a ! r) = nat (width a)"
    and "r < length (table b)" "length (table b ! r) = nat (width a)"
    and "r < length (table m)" "length (table m ! r) = nat (width a)"
  shows "merge_row a b (int r) m =
     Inr (m\<lparr>table := (table m)[r := map2 (+) (table a ! r) (table b ! r)]\<rparr>)"
proof -
  let ?n = "nat (width a)"
  have "map (\<lambda>j. if j < ?n then table a ! r ! j + table b ! r ! j else table m ! r ! j) [0..<?n]
      = map (\<lambda>j. table a ! r ! j + table b ! r ! j) [0..<?n]"
    by (rule map_cong) simp_all
  also have "\<dots> = map2 (+) (table a ! r) (table b ! r)"
    by (rule map_index_zip [OF assms(2,4)])
  finally show ?thesis
    using merge_row_loop [OF assms order_refl] by (simp add: merge_row_def py_range_def)
qed

lemma merge_rows_loop:
  assumes "length (table a) = d" "\<forall>r < d. length (table a ! r) = nat (width a)"
    and "length (table b) = d" "\<forall>r < d. length (table b ! r) = nat (width a)"
    and "length (table m) = d" "\<forall>r < d. length (table m ! r) = nat (width a)"
    and "k \<le> d"
  shows "for_each (merge_row a b) (map int [0..<k]) m =
     Inr (m\<lparr>table := map (\<lambda>i. if i < k then map2 (+) (table a ! i) (table b ! i)
                              else table m ! i) [0..<d]\<rparr>)"
  using assms(7)
proof (induction k)
  case 0
  have "map ((!) (table m)) [0..<d] = table m"
    unfolding assms(5) [symmetric] by (rule map_nth)
  then show ?case by simp
next
  case (Suc k)
  let ?t = "\<lambda>k. map (\<lambda>i. if i < k then map2 (+) (table a ! i) (table b ! i)
                              else table m ! i) [0..<d]"
  let ?m = "\<lambda>k. m\<lparr>table := ?t k\<rparr>"
  have k: "k < d" using Suc.prems by simp
  have prev: "for_each (merge_row a b) (map int [0..<k]) m = Inr (?m k)"
    using Suc by simp
  have upd: "(?t k)[k := map2 (+) (table a ! k) (table b ! k)] = ?t (Suc k)"
    by (rule nth_equalityI) (auto simp: nth_list_update less_Suc_eq)
  have "merge_row a b (int k) (?m k) =
      Inr ((?m k)\<lparr>table := (table (?m k))[k := map2 (+) (table a ! k) (table b ! k)]\<rparr>)"
    using assms(1-6) k by (intro merge_row_shaped) simp_all
  also have "\<dots> = Inr (?m (Suc k))"
    using upd by simp
  finally show ?case using prev by (simp add: for_each_append)
qed

lemma shaped_rows:
  "CountMinSketch_shaped s \<Longrightarrow>
   length (table s) = nat (depth s) \<and> (\<forall>r < nat (depth s). length (table s ! r) = nat (width s))"
  by (simp add: CountMinSketch_shaped_def)

lemma CountMinSketch_init_shaped: "CountMinSketch_shaped (CountMinSketch_init w d)"
  by (simp add: CountMinSketch_shaped_def CountMinSketch_init_def)

lemma CountMinSketch_merge_shaped:
  assumes "CountMinSketch_shaped a" "CountMinSketch_shaped b"
    and "width a = width b" "depth a = depth b"
  shows "CountMinSketch_merge a b =
     Inr \<lparr>width = width a, depth = depth a,
          table = map2 (map2 (+)) (table a) (table b),
          total_count = total_count a + total_count b\<rparr>"
proof -
  let ?d = "nat (depth a)"
  let ?m = "CountMinSketch_init (width a) (depth a)"
  have a: "length (table a) = ?d" "\<forall>r < ?d. length (table a ! r) = nat (width a)"
    using shaped_rows [OF assms(1)] by simp_all
  have b: "length (table b) = ?d" "\<forall>r < ?d. length (table b ! r) = nat (width a)"
    using shaped_rows [OF assms(2)] assms(3,4) by simp_all
  have m: "length (table ?m) = ?d" "\<forall>r < ?d. length (table ?m ! r) = nat (width a)"
    by (simp_all add: CountMinSketch_init_def)
  have "map (\<lambda>i. if i < ?d then map2 (+) (table a ! i) (table b ! i) else table ?m ! i) [0..<?d]
      = map (\<lambda>i. map2 (+) (table a ! i) (table b ! i)) [0..<?d]"
    by (rule map_cong) simp_all
  also have "\<dots> = map2 (map2 (+)) (table a) (table b)"
    by (rule map_index_zip [OF a(1) b(1)])
  finally have "for_each (merge_row a b) (map int [0..<?d]) ?m =
      Inr (?m\<lparr>table := map2 (map2 (+)) (table a) (table b)\<rparr>)"
    using merge_rows_loop [OF a b m order_refl] by simp
  then show ?thesis
    using assms(3,4) [symmetric]
    by (simp add: CountMinSketch_merge_def py_range_def bindE_simps CountMinSketch_init_def)
qed

lemma CountMinSketch_merge_mismatch:
  "width a \<noteq> width b \<or> depth a \<noteq> depth b \<Longrightarrow>
   CountMinSketch_merge a b = Inl (ValueError ''Sketches must have the same dimensions'')"
  by (simp add: CountMinSketch_merge_def)

section \<open>\<open>merge\<close> is commutative and associative\<close>

lemma map2_assoc:
  assumes "\<And>x y z. f (f x y) z = f x (f y z)"
  shows "map2 f (map2 f xs ys) zs = map2 f xs (map2 f ys zs)"
  by (rule nth_equalityI) (simp_all add: assms min.assoc)

lemma map2_commute:
  assumes "\<And>x y. f x y = f y x"
  shows "map2 f xs ys = map2 f ys xs"
  by (rule nth_equalityI) (simp_all add: assms min.commute)

lemma add_rows_assoc:
  "map2 (+) (map2 (+) x y) z = map2 (+) x (map2 (+) y (z :: int list))"
  by (rule map2_assoc) simp

lemma add_rows_commute: "map2 (+) x y = map2 (+) y (x :: int list)"
  by (rule map2_commute) simp

lemma add_tables_assoc:
  "map2 (map2 (+)) (map2 (map2 (+)) x y) z = map2 (map2 (+)) x (map2 (map2 (+)) y (z :: int list list))"
  by (rule map2_assoc) (rule add_rows_assoc)

lemma add_tables_commute: "map2 (map2 (+)) x y = map2 (map2 (+)) y (x :: int list list)"
  by (rule map2_commute) (rule add_rows_commute)

lemma max_registers_assoc:
  "map2 max (map2 max x y) z = map2 max x (map2 max y (z :: int list))"
  by (rule map2_assoc) (rule max.assoc)

lemma max_registers_commute: "map2 max x y = map2 max y (x :: int list)"
  by (rule map2_commute) (rule max.commute)

lemma merged_table_shaped:
  assumes "CountMinSketch_shaped a" "CountMinSketch_shaped b"
    and "width a = width b" "depth a = depth b"
  shows "CountMinSketch_shaped
     \<lparr>width = width a, depth = depth a, table = map2 (map2 (+)) (table a) (table b),
      total_count = n\<rparr>"
proof -
  have "length r = nat (width a)" if "r \<in> set (map2 (map2 (+)) (table a) (table b))" for r
  proof -
    have "r \<in> (\<lambda>p. map2 (+) (fst p) (snd p)) ` set (zip (table a) (table b))"
      using that by (simp add: case_prod_beta)
    then obtain p where p: "p \<in> set (zip (table a) (table b))"
        "r = map2 (+) (fst p) (snd p)"
      by (rule imageE)
    obtain x y where xy: "p = (x, y)" by (cases p)
    have z: "(x, y) \<in> set (zip (table a) (table b))" and r: "r = map2 (+) x y"
      using p xy by simp_all
    have "length x = nat (width a)" "length y = nat (width a)"
      using set_zip_leftD [OF z] set_zip_rightD [OF z] assms
      by (simp_all add: CountMinSketch_shaped_def)
    then show ?thesis using r by simp
  qed
  then show ?thesis
    using assms by (simp add: CountMinSketch_shaped_def)
qed

lemma CountMinSketch_merge3:
  assumes "CountMinSketch_shaped a" "CountMinSketch_shaped b" "CountMinSketch_shaped c"
    and "width a = width b" "width b = width c" "depth a = depth b" "depth b = depth c"
  shows "bindE (CountMinSketch_merge a b) (\<lambda>m. CountMinSketch_merge m c) =
     Inr \<lparr>width = width a, depth = depth a,
          table = map2 (map2 (+)) (map2 (map2 (+)) (table a) (table b)) (table c),
          total_count = total_count a + total_count b + total_count c\<rparr>"
proof -
  let ?ab = "\<lparr>width = width a, depth = depth a, table = map2 (map2 (+)) (table a) (table b),
      total_count = total_count a + total_count b\<rparr>"
  have ab: "CountMinSketch_merge a b = Inr ?ab"
    by (rule CountMinSketch_merge_shaped [OF assms(1,2,4,6)])
  have s: "CountMinSketch_shaped ?ab"
    by (rule merged_table_shaped [OF assms(1,2,4,6)])
  have "CountMinSketch_merge ?ab c =
      Inr \<lparr>width = width ?ab, depth = depth ?ab,
          table = map2 (map2 (+)) (table ?ab) (table c),
          total_count = total_count ?ab + total_count c\<rparr>"
    using assms(4-7) by (intro CountMinSketch_merge_shaped [OF s assms(3)]) simp_all
  then show ?thesis by (simp add: ab bindE_simps)
qed

lemma HyperLogLog_merge3:
  assumes "HyperLogLog_wf a" "HyperLogLog_wf b" "HyperLogLog_wf c"
    and "precision a = precision b" "precision b = precision c"
  shows "bindE (HyperLogLog_merge a b) (\<lambda>m. HyperLogLog_merge m c) =
     Inr \<lparr>precision = precision a, num_registers = 2 ^ nat (precision a),
          registers = map2 max (map2 max (registers a) (registers b)) (registers c)\<rparr>"
proof -
  let ?ab = "\<lparr>precision = precision a, num_registers = 2 ^ nat (precision a),
          registers = map2 max (registers a) (registers b)\<rparr>"
  have ab: "HyperLogLog_merge a b = Inr ?ab"
    by (rule HyperLogLog_merge_wf [OF assms(1,2,4)])
  have w: "HyperLogLog_wf ?ab"
    by (rule HyperLogLog_merge_keeps_wf [OF assms(1,2) ab, THEN conjunct1])
  have "HyperLogLog_merge ?ab c =
      Inr \<lparr>precision = precision ?ab, num_registers = 2 ^ nat (precision ?ab),
          registers = map2 max (registers ?ab) (registers c)\<rparr>"
    using assms(4,5) by (intro HyperLogLog_merge_wf [OF w assms(3)]) simp
  then show ?thesis by (simp add: ab bindE_simps)
qed

text \<open>
  Claim C5. For three Count-Min Sketches of the constructor's shape and of the same
  width and depth, merging \<open>(A, B)\<close> then \<open>C\<close>, \<open>A\<close> with the merge of \<open>(B, C)\<close>, and
  \<open>(A, C)\<close> then \<open>B\<close> all return, with the same table and the same \<open>total_count\<close>; and
  \<open>merge(A, B)\<close> is \<open>merge(B, A)\<close>. The same holds for the register arrays of three
  HyperLogLogs of one precision.
\<close>

theorem merge_commutative_associative:
  assumes "CountMinSketch_shaped A" and "CountMinSketch_shaped B" and "CountMinSketch_shaped C"
    and "width A = width B" and "width B = width C"
    and "depth A = depth B" and "depth B = depth C"
    and "HyperLogLog_wf a" and "HyperLogLog_wf b" and "HyperLogLog_wf c"
    and "precision a = precision b" and "precision b = precision c"
  shows "(\<exists>M. bindE (CountMinSketch_merge A B) (\<lambda>m. CountMinSketch_merge m C) = Inr M \<and>
          bindE (CountMinSketch_merge B C) (\<lambda>m. CountMinSketch_merge A m) = Inr M \<and>
          bindE (CountMinSketch_merge A C) (\<lambda>m. CountMinSketch_merge m B) = Inr M) \<and>
     CountMinSketch_merge A B = CountMinSketch_merge B A \<and>
     (\<exists>m. bindE (HyperLogLog_merge a b) (\<lambda>x. HyperLogLog_merge x c) = Inr m \<and>
          bindE (HyperLogLog_merge b c) (\<lambda>x. HyperLogLog_merge a x) = Inr m \<and>
          bindE (HyperLogLog_merge a c) (\<lambda>x. HyperLogLog_merge x b) = Inr m) \<and>
     HyperLogLog_merge a b = HyperLogLog_merge b a"
proof -
  let ?M = "\<lparr>width = width A, depth = depth A,
          table = map2 (map2 (+)) (map2 (map2 (+)) (table A) (table B)) (table C),
          total_count = total_count A + total_count B + total_count C\<rparr>"
  have 1: "bindE (CountMinSketch_merge A B) (\<lambda>m. CountMinSketch_merge m C) = Inr ?M"
    by (rule CountMinSketch_merge3 [OF assms(1-7)])
  have bc: "CountMinSketch_merge B C =
      Inr \<lparr>width = width B, depth = depth B, table = map2 (map2 (+)) (table B) (table C),
          total_count = total_count B + total_count C\<rparr>"
    by (rule CountMinSketch_merge_shaped [OF assms(2,3,5,7)])
  have sbc: "CountMinSketch_shaped
      \<lparr>width = width B, depth = depth B, table = map2 (map2 (+)) (table B) (table C),
          total_count = total_count B + total_count C\<rparr>"
    by (rule merged_table_shaped [OF assms(2,3,5,7)])
  have 2: "bindE (CountMinSketch_merge B C) (\<lambda>m. CountMinSketch_merge A m) = Inr ?M"
    using CountMinSketch_merge_shaped [OF assms(1) sbc] assms(4,6)
    by (simp add: bc bindE_simps add_tables_assoc)
  have "bindE (CountMinSketch_merge A C) (\<lambda>m. CountMinSketch_merge m B) =
      Inr \<lparr>width = width A, depth = depth A,
          table = map2 (map2 (+)) (map2 (map2 (+)) (table A) (table C)) (table B),
          total_count = total_count A + total_count C + total_count B\<rparr>"
    using assms(4-7) by (intro CountMinSketch_merge3 [OF assms(1,3,2)]) simp_all
  moreover have "map2 (map2 (+)) (map2 (map2 (+)) (table A) (table C)) (table B) =
      map2 (map2 (+)) (map2 (map2 (+)) (table A) (table B)) (table C)"
    by (simp add: add_tables_assoc add_tables_commute [of "table C" "table B"])
  ultimately have 3: "bindE (CountMinSketch_merge A C) (\<lambda>m. CountMinSketch_merge m B) = Inr ?M"
    by simp
  have 4: "CountMinSketch_merge A B = CountMinSketch_merge B A"
    using CountMinSketch_merge_shaped [OF assms(1,2,4,6)]
      CountMinSketch_merge_shaped [OF assms(2,1) assms(4) [symmetric] assms(6) [symmetric]]
      assms(4,6) add_tables_commute [of "table A" "table B"]
    by simp
  let ?m = "\<lparr>precision = precision a, num_registers = 2 ^ nat (precision a),
          registers = map2 max (map2 max (registers a) (registers b)) (registers c)\<rparr>"
  have 5: "bindE (HyperLogLog_merge a b) (\<lambda>x. HyperLogLog_merge x c) = Inr ?m"
    by (rule HyperLogLog_merge3 [OF assms(8-12)])
  have hbc: "HyperLogLog_merge b c =
      Inr \<lparr>precision = precision b, num_registers = 2 ^ nat (precision b),
          registers = map2 max (registers b) (registers c)\<rparr>"
    by (rule HyperLogLog_merge_wf [OF assms(9,10,12)])
  have wbc: "HyperLogLog_wf \<lparr>precision = precision b, num_registers = 2 ^ nat (precision b),
          registers = map2 max (registers b) (registers c)\<rparr>"
    by (rule HyperLogLog_merge_keeps_wf [OF assms(9,10) hbc, THEN conjunct1])
  have 6: "bindE (HyperLogLog_merge b c) (\<lambda>x. HyperLogLog_merge a x) = Inr ?m"
    using HyperLogLog_merge_wf [OF assms(8) wbc] assms(11)
    by (simp add: hbc bindE_simps max_registers_assoc)
  have "bindE (HyperLogLog_merge a c) (\<lambda>x. HyperLogLog_merge x b) =
      Inr \<lparr>precision = precision a, num_registers = 2 ^ nat (precision a),
          registers = map2 max (map2 max (registers a) (registers c)) (registers b)\<rparr>"
    using assms(11,12) by (intro HyperLogLog_merge3 [OF assms(8,10,9)]) simp_all
  moreover have "map2 max (map2 max (registers a) (registers c)) (registers b) =
      map2 max (map2 max (registers a) (registers b)) (registers c)"
    by (simp add: max_registers_assoc max_registers_commute [of "registers c" "registers b"])
  ultimately have 7: "bindE (HyperLogLog_merge a c) (\<lambda>x. HyperLogLog_merge x b) = Inr ?m"
    by simp
  have 8: "HyperLogLog_merge a b = HyperLogLog_merge b a"
    using HyperLogLog_merge_wf [OF assms(8,9,11)]
      HyperLogLog_merge_wf [OF assms(9,8) assms(11) [symmetric]]
      assms(11) max_registers_commute [of "registers a" "registers b"]
    by simp
  show ?thesis using 1 2 3 4 5 6 7 8 by blast
qed

theorem merge_commutative_associative_witness:
  "bindE (CountMinSketch_merge
       \<lparr>width = 2, depth = 2, table = [[1, 0], [0, 1]], total_count = 1\<rparr>
       \<lparr>width = 2, depth = 2, table = [[0, 2], [2, 0]], total_count = 2\<rparr>)
     (\<lambda>m. CountMinSketch_merge m
       \<lparr>width = 2, depth = 2, table = [[4, 0], [4, 0]], total_count = 4\<rparr>) =
   Inr \<lparr>width = 2, depth = 2, table = [[5, 2], [6, 1]], total_count = 7\<rparr> \<and>
   bindE (CountMinSketch_merge
       \<lparr>width = 2, depth = 2, table = [[0, 2], [2, 0]], total_count = 2\<rparr>
       \<lparr>width = 2, depth = 2, table = [[4, 0], [4, 0]], total_count = 4\<rparr>)
     (\<lambda>m. CountMinSketch_merge
       \<lparr>width = 2, depth = 2, table = [[1, 0], [0, 1]], total_count = 1\<rparr> m) =
   Inr \<lparr>width = 2, depth = 2, table = [[5, 2], [6, 1]], total_count = 7\<rparr> \<and>
   bindE (CountMinSketch_merge
       \<lparr>width = 2, depth = 2, table = [[1, 0], [0, 1]], total_count = 1\<rparr>
       \<lparr>width = 2, depth = 2, table = [[4, 0], [4, 0]], total_count = 4\<rparr>)
     (\<lambda>m. CountMinSketch_merge m
       \<lparr>width = 2, depth = 2, table = [[0, 2], [2, 0]], total_count = 2\<rparr>) =
   Inr \<lparr>width = 2, depth = 2, table = [[5, 2], [6, 1]], total_count = 7\<rparr> \<and>
   bindE (HyperLogLog_merge
       \<lparr>precision = 4, num_registers = 16,
         registers = [0, 54, 0, 0, 0, 0, 0, 0, 0, 0, 0, 0, 0, 0, 0, 0]\<rparr>
       \<lparr>precision = 4, num_registers = 16,
         registers = [0, 55, 53, 0, 0, 0, 0, 0, 0, 0, 0, 0, 0, 0, 0, 0]\<rparr>)
     (\<lambda>x. HyperLogLog_merge x
       \<lparr>precision = 4, num_registers = 16,
         registers = [7, 0, 60, 0, 0, 0, 0, 0, 0, 0, 0, 0, 0, 0, 0, 0]\<rparr>) =
   bindE (HyperLogLog_merge
       \<lparr>precision = 4, num_registers = 16,
         registers = [0, 54, 0, 0, 0, 0, 0, 0, 0, 0, 0, 0, 0, 0, 0, 0]\<rparr>
       \<lparr>precision = 4, num_registers = 16,
         registers = [7, 0, 60, 0, 0, 0, 0, 0, 0, 0, 0, 0, 0, 0, 0, 0]\<rparr>)
     (\<lambda>x. HyperLogLog_merge x
       \<lparr>precision = 4, num_registers = 16,
         registers = [0, 55, 53, 0, 0, 0, 0, 0, 0, 0, 0, 0, 0, 0, 0, 0]\<rparr>)"
proof -
  let ?A = "\<lparr>width = 2, depth = 2, table = [[1, 0], [0, 1]], total_count = 1\<rparr>"
  let ?B = "\<lparr>width = 2, depth = 2, table = [[0, 2], [2, 0]], total_count = 2\<rparr>"
  let ?C = "\<lparr>width = 2, depth = 2, table = [[4, 0], [4, 0]], total_count = 4\<rparr>"
  let ?a = "\<lparr>precision = 4, num_registers = 16,
         registers = [0, 54, 0, 0, 0, 0, 0, 0, 0, 0, 0, 0, 0, 0, 0, 0]\<rparr>"
  let ?b = "\<lparr>precision = 4, num_registers = 16,
         registers = [0, 55, 53, 0, 0, 0, 0, 0, 0, 0, 0, 0, 0, 0, 0, 0]\<rparr>"
  let ?c = "\<lparr>precision = 4, num_registers = 16,
         registers = [7, 0, 60, 0, 0, 0, 0, 0, 0, 0, 0, 0, 0, 0, 0, 0]\<rparr>"
  have s: "CountMinSketch_shaped ?A" "CountMinSketch_shaped ?B" "CountMinSketch_shaped ?C"
    by (simp_all add: CountMinSketch_shaped_def)
  have w: "HyperLogLog_wf ?a" "HyperLogLog_wf ?b" "HyperLogLog_wf ?c"
    by (simp_all add: HyperLogLog_wf_def)
  note t = merge_commutative_associative [OF s _ _ _ _ w, simplified]
  have e: "bindE (CountMinSketch_merge ?A ?B) (\<lambda>m. CountMinSketch_merge m ?C) =
      Inr \<lparr>width = 2, depth = 2, table = [[5, 2], [6, 1]], total_count = 7\<rparr>"
    by code_simp
  show ?thesis using t e by auto
qed

section \<open>\<open>merge\<close> writes only the structure it creates\<close>

lemma for_each_on_new_object:
  assumes "\<And>x obj. body_at x (store @ [obj]) =
     (case body x obj of Inl e \<Rightarrow> Inl e | Inr obj' \<Rightarrow> Inr (store @ [obj']))"
  shows "for_each body_at xs (store @ [obj]) =
     (case for_each body xs obj of Inl e \<Rightarrow> Inl e | Inr obj' \<Rightarrow> Inr (store @ [obj']))"
  by (induction xs arbitrary: obj) (simp_all add: assms split: sum.splits)

lemma HyperLogLog_merge_register_at_new:
  assumes "self < length store" "other < length store"
  shows "HyperLogLog_merge_register_at self other (length store) i (store @ [m]) =
     (case merge_register (store ! self) (store ! other) i m of
        Inl e \<Rightarrow> Inl e | Inr m' \<Rightarrow> Inr (store @ [m']))"
  using assms
  by (simp add: HyperLogLog_merge_register_at_def merge_register_def nth_append bindE_def
      split: sum.splits)

lemma HyperLogLog_merge_at_value:
  assumes "self < length store" "other < length store"
  shows "HyperLogLog_merge_at store self other =
     (case HyperLogLog_merge (store ! self) (store ! other) of
        Inl e \<Rightarrow> Inl e | Inr m \<Rightarrow> Inr (length store, store @ [m]))"
  using assms
    for_each_on_new_object [of "HyperLogLog_merge_register_at self other (length store)" store
      "merge_register (store ! self) (store ! other)",
      OF HyperLogLog_merge_register_at_new [OF assms]]
  by (simp add: HyperLogLog_merge_at_def HyperLogLog_merge_def allocate_def nth_append
      bindE_def split: sum.splits)

lemma CountMinSketch_merge_cell_at_new:
  assumes "self < length store" "other < length store"
  shows "CountMinSketch_merge_cell_at self other (length store) row col (store @ [m]) =
     (case merge_cell (store ! self) (store ! other) row col m of
        Inl e \<Rightarrow> Inl e | Inr m' \<Rightarrow> Inr (store @ [m']))"
  using assms
  by (simp add: CountMinSketch_merge_cell_at_def merge_cell_def nth_append bindE_def
      split: sum.splits)

lemma CountMinSketch_merge_row_at_new:
  assumes "self < length store" "other < length store"
  shows "CountMinSketch_merge_row_at self other (length store) row (store @ [m]) =
     (case merge_row (store ! self) (store ! other) row m of
        Inl e \<Rightarrow> Inl e | Inr m' \<Rightarrow> Inr (store @ [m']))"
  using assms
    for_each_on_new_object [of "CountMinSketch_merge_cell_at self other (length store) row" store
      "merge_cell (store ! self) (store ! other) row",
      OF CountMinSketch_merge_cell_at_new [OF assms]]
  by (simp add: CountMinSketch_merge_row_at_def merge_row_def nth_append)

lemma CountMinSketch_merge_at_value:
  assumes "self < length store" "other < length store"
  shows "CountMinSketch_merge_at store self other =
     (case CountMinSketch_merge (store ! self) (store ! other) of
        Inl e \<Rightarrow> Inl e | Inr m \<Rightarrow> Inr (length store, store @ [m]))"
  using assms
    for_each_on_new_object [of "CountMinSketch_merge_row_at self other (length store)" store
      "merge_row (store ! self) (store ! other)",
      OF CountMinSketch_merge_row_at_new [OF assms]]
  by (simp add: CountMinSketch_merge_at_def CountMinSketch_merge_def allocate_def nth_append
      bindE_def split: sum.splits)

text \<open>
  Claim C10. \<open>CountMinSketch.merge\<close> and \<open>HyperLogLog.merge\<close>, called on two operands of
  the same shape, return a reference that was not in the store before the call, and
  every object that was in the store, the two operands among them, is what it was:
  table, \<open>total_count\<close> and registers are unchanged.
\<close>

theorem merge_non_destructive:
  assumes "self < length store" and "other < length store"
    and "CountMinSketch_shaped (store ! self)" and "CountMinSketch_shaped (store ! other)"
    and "width (store ! self) = width (store ! other)"
    and "depth (store ! self) = depth (store ! other)"
    and "hself < length hstore" and "hother < length hstore"
    and "HyperLogLog_wf (hstore ! hself)" and "HyperLogLog_wf (hstore ! hother)"
    and "precision (hstore ! hself) = precision (hstore ! hother)"
  shows "(\<exists>merged store'. CountMinSketch_merge_at store self other = Inr (merged, store') \<and>
            merged = length store \<and> length store' = Suc (length store) \<and>
            take (length store) store' = store \<and>
            store' ! self = store ! self \<and> store' ! other = store ! other) \<and>
         (\<exists>merged hstore'. HyperLogLog_merge_at hstore hself hother = Inr (merged, hstore') \<and>
            merged = length hstore \<and> length hstore' = Suc (length hstore) \<and>
            take (length hstore) hstore' = hstore \<and>
            hstore' ! hself = hstore ! hself \<and> hstore' ! hother = hstore ! hother)"
proof -
  obtain m where m: "CountMinSketch_merge (store ! self) (store ! other) = Inr m"
    using CountMinSketch_merge_shaped [OF assms(3-6)] by blast
  have c: "CountMinSketch_merge_at store self other = Inr (length store, store @ [m])"
    using CountMinSketch_merge_at_value [OF assms(1,2)] m by simp
  obtain h where h: "HyperLogLog_merge (hstore ! hself) (hstore ! hother) = Inr h"
    using HyperLogLog_merge_wf [OF assms(9-11)] by blast
  have d: "HyperLogLog_merge_at hstore hself hother = Inr (length hstore, hstore @ [h])"
    using HyperLogLog_merge_at_value [OF assms(7,8)] h by simp
  show ?thesis
    using c d assms(1,2,7,8) by (simp add: nth_append)
qed

theorem merge_non_destructive_witness:
  "CountMinSketch_merge_at
     [\<lparr>width = 2, depth = 2, table = [[1, 0], [0, 1]], total_count = 1\<rparr>,
      \<lparr>width = 2, depth = 2, table = [[0, 2], [2, 0]], total_count = 2\<rparr>] 0 1 =
   Inr (2,
     [\<lparr>width = 2, depth = 2, table = [[1, 0], [0, 1]], total_count = 1\<rparr>,
      \<lparr>width = 2, depth = 2, table = [[0, 2], [2, 0]], total_count = 2\<rparr>,
      \<lparr>width = 2, depth = 2, table = [[1, 2], [2, 1]], total_count = 3\<rparr>]) \<and>
   HyperLogLog_merge_at
     [\<lparr>precision = 4, num_registers = 16,
         registers = [0, 54, 0, 0, 0, 0, 0, 0, 0, 0, 0, 0, 0, 0, 0, 0]\<rparr>,
      \<lparr>precision = 4, num_registers = 16,
         registers = [0, 55, 53, 0, 0, 0, 0, 0, 0, 0, 0, 0, 0, 0, 0, 0]\<rparr>] 0 1 =
   Inr (2,
     [\<lparr>precision = 4, num_registers = 16,
         registers = [0, 54, 0, 0, 0, 0, 0, 0, 0, 0, 0, 0, 0, 0, 0, 0]\<rparr>,
      \<lparr>precision = 4, num_registers = 16,
         registers = [0, 55, 53, 0, 0, 0, 0, 0, 0, 0, 0, 0, 0, 0, 0, 0]\<rparr>,
      \<lparr>precision = 4, num_registers = 16,
         registers = [0, 55, 53, 0, 0, 0, 0, 0, 0, 0, 0, 0, 0, 0, 0, 0]\<rparr>])"
proof -
  let ?A = "\<lparr>width = 2, depth = 2, table = [[1, 0], [0, 1]], total_count = 1\<rparr>"
  let ?B = "\<lparr>width = 2, depth = 2, table = [[0, 2], [2, 0]], total_count = 2\<rparr>"
  let ?a = "\<lparr>precision = 4, num_registers = 16,
         registers = [0, 54, 0, 0, 0, 0, 0, 0, 0, 0, 0, 0, 0, 0, 0, 0]\<rparr>"
  let ?b = "\<lparr>precision = 4, num_registers = 16,
         registers = [0, 55, 53, 0, 0, 0, 0, 0, 0, 0, 0, 0, 0, 0, 0, 0]\<rparr>"
  have s: "CountMinSketch_shaped ([?A, ?B] ! 0)" "CountMinSketch_shaped ([?A, ?B] ! 1)"
    by (simp_all add: CountMinSketch_shaped_def)
  have w: "HyperLogLog_wf ([?a, ?b] ! 0)" "HyperLogLog_wf ([?a, ?b] ! 1)"
    by (simp_all add: HyperLogLog_wf_def)
  obtain merged store' hmerged hstore' where
    t: "CountMinSketch_merge_at [?A, ?B] 0 1 = Inr (merged, store')"
      "take (length [?A, ?B]) store' = [?A, ?B]"
      "HyperLogLog_merge_at [?a, ?b] 0 1 = Inr (hmerged, hstore')"
      "take (length [?a, ?b]) hstore' = [?a, ?b]"
    using merge_non_destructive [of 0 "[?A, ?B]" 1 0 "[?a, ?b]" 1, OF _ _ s _ _ _ _ w]
    by auto
  have "CountMinSketch_merge_at [?A, ?B] 0 1 =
      Inr (2, [?A, ?B, \<lparr>width = 2, depth = 2, table = [[1, 2], [2, 1]], total_count = 3\<rparr>])"
    by code_simp
  moreover have "HyperLogLog_merge_at [?a, ?b] 0 1 =
      Inr (2, [?a, ?b, \<lparr>precision = 4, num_registers = 16,
         registers = [0, 55, 53, 0, 0, 0, 0, 0, 0, 0, 0, 0, 0, 0, 0, 0]\<rparr>])"
    by code_simp
  ultimately show ?thesis using t by simp
qed

end
